theory Spec2Isabelle
  imports Main "HOL-Library.Monad_Syntax"
begin

section \<open>Python strings\<close>

text \<open>
  A Python \<^verbatim>\<open>str\<close> is a sequence of Unicode code points, so it is modelled as a list of
  natural numbers. \<open>str\<close> turns an ASCII literal into such a list.
  A file is modelled by the text that Python's text layer delivers for it: decoded, and with
  every line end already translated to the single code point 10.
\<close>

type_synonym pystr = "nat list"

definition str :: "string \<Rightarrow> pystr" where
  "str s = map of_char s"

definition LF :: nat where
  "LF = 10"

definition colon :: nat where
  "colon = 58"

text \<open>
  The code points for which \<^verbatim>\<open>str.isspace\<close> holds; they are what \<^verbatim>\<open>str.strip()\<close>
  without an argument removes.
\<close>

definition isspace :: "nat \<Rightarrow> bool" where
  "isspace c = ((9 \<le> c \<and> c \<le> 13) \<or> (28 \<le> c \<and> c \<le> 32) \<or> c = 133 \<or> c = 160
      \<or> c = 5760 \<or> (8192 \<le> c \<and> c \<le> 8202) \<or> c = 8232 \<or> c = 8233 \<or> c = 8239
      \<or> c = 8287 \<or> c = 12288)"

definition lstrip :: "pystr \<Rightarrow> pystr" where
  "lstrip s = dropWhile isspace s"

definition rstrip :: "pystr \<Rightarrow> pystr" where
  "rstrip s = rev (dropWhile isspace (rev s))"

definition strip :: "pystr \<Rightarrow> pystr" where
  "strip s = rstrip (lstrip s)"

text \<open>
  \<^verbatim>\<open>s.split(sep, maxsplit)\<close> for a separator of one code point: the cuts are made at the
  first \<open>maxsplit\<close> occurrences of the separator, and the rest of the string is the last part.
\<close>

fun str_split :: "nat \<Rightarrow> nat \<Rightarrow> pystr \<Rightarrow> pystr list" where
  "str_split sep 0 s = [s]"
| "str_split sep (Suc k) s =
     (if sep \<in> set s
      then takeWhile (\<lambda>c. c \<noteq> sep) s # str_split sep k (tl (dropWhile (\<lambda>c. c \<noteq> sep) s))
      else [s])"

text \<open>\<^verbatim>\<open>str(n)\<close> for a non-negative integer: its decimal digits.\<close>

fun str_of_nat :: "nat \<Rightarrow> pystr" where
  "str_of_nat n = (if n < 10 then [48 + n] else str_of_nat (n div 10) @ [48 + n mod 10])"

declare str_of_nat.simps [simp del]

section \<open>ULPValidator\<close>

text \<open>
  \<^verbatim>\<open>validate_line\<close> returns the triple (is_valid, reason, line), where \<open>line\<close> is the
  stripped line in all three branches.
\<close>

definition validate_line :: "pystr \<Rightarrow> nat \<Rightarrow> bool \<times> pystr \<times> pystr" where
  "validate_line line0 line_num =
     (let line = strip line0 in
      if line = [] then (False, str ''Empty Line'', line)
      else
        let parts = str_split colon 2 line in
        if length parts \<noteq> 3 then (False, str ''Not Enough Parts'', line)
        else (True, str ''Valid'', line))"

section \<open>Files\<close>

text \<open>
  Iterating over a text file yields its lines, each with its line end, except that the last
  line has none when the text does not end with one.
\<close>

fun readlines :: "pystr \<Rightarrow> pystr list" where
  "readlines [] = []"
| "readlines (c # cs) =
     (if c = LF then [LF] # readlines cs
      else (case readlines cs of [] \<Rightarrow> [[c]] | l # ls \<Rightarrow> (c # l) # ls))"

text \<open>
  A file object opened for writing: its path, the text the file holds, and whether the
  object has been closed. \<^verbatim>\<open>write\<close> is only ever called in the loop of
  \<^verbatim>\<open>process_files\<close>, and the files are closed after that loop.
\<close>

record file_obj =
  path :: pystr
  content :: pystr
  closed :: bool

definition open_w :: "pystr \<Rightarrow> file_obj" where
  "open_w pth = \<lparr>path = pth, content = [], closed = False\<rparr>"

definition file_write :: "file_obj \<Rightarrow> pystr \<Rightarrow> file_obj" where
  "file_write f s = f\<lparr>content := content f @ s\<rparr>"

definition file_close :: "file_obj \<Rightarrow> file_obj" where
  "file_close f = f\<lparr>closed := True\<rparr>"

text \<open>\<^verbatim>\<open>os.path.join\<close> of a folder and a file name, with the separator \<^verbatim>\<open>/\<close>.\<close>

definition path_join :: "pystr \<Rightarrow> pystr \<Rightarrow> pystr" where
  "path_join a b = (if a = [] then b else if last a = 47 then a @ b else a @ [47] @ b)"

text \<open>
  What the run finds on disk. The target file is opened twice, first to count its lines
  and later for the loop: each time it can be opened or not, and the two texts need not be
  the same. The master file is absent, with a flag telling whether it can be created, or
  present with its text and a flag telling whether it can be opened for appending. The log
  files can be created or not.
\<close>

datatype master_state = Absent bool | Present pystr bool

record filesystem =
  target :: "pystr option"
  target_loop :: "pystr option"
  master :: master_state
  logs_creatable :: bool

datatype error = Target_open_failed | Logs_open_failed | Master_open_failed

section \<open>FileProcessor\<close>

datatype signal =
    Update_progress nat nat nat nat
  | Processing_complete
  | Error_occurred error

datatype command = Pause | Resume | Stop

text \<open>
  The fields of \<^verbatim>\<open>FileProcessor\<close>, together with the local variables
  \<open>existing_lines\<close> and \<open>master_fd\<close> of \<^verbatim>\<open>process_files\<close> and the signals
  emitted so far. \<open>lock\<close> tells whether the \<^verbatim>\<open>threading.Lock\<close> is held.
\<close>

record processor =
  master_file :: pystr
  target_file :: pystr
  logs_folder :: pystr
  is_running :: bool
  is_paused :: bool
  lock :: bool
  total_lines :: nat
  processed_lines :: nat
  valid_lines :: nat
  rejected_lines :: nat
  log_files :: "pystr \<rightharpoonup> file_obj"
  existing_lines :: "pystr set"
  master_fd :: "file_obj option"
  emitted :: "signal list"

definition FileProcessor :: "pystr \<Rightarrow> pystr \<Rightarrow> pystr \<Rightarrow> processor" where
  "FileProcessor master_path target_path logs_path =
     \<lparr>master_file = master_path, target_file = target_path, logs_folder = logs_path,
      is_running = False, is_paused = False, lock = False,
      total_lines = 0, processed_lines = 0, valid_lines = 0, rejected_lines = 0,
      log_files = Map.empty, existing_lines = {}, master_fd = None, emitted = []\<rparr>"

definition emit :: "signal \<Rightarrow> processor \<Rightarrow> processor" where
  "emit s p = p\<lparr>emitted := emitted p @ [s]\<rparr>"

definition log_reasons :: "pystr list" where
  "log_reasons = [str ''Not Enough Parts'', str ''Empty Line'', str ''Duplicate'']"

definition initialize_logs :: "processor \<Rightarrow> processor" where
  "initialize_logs p =
     foldl (\<lambda>p reason.
              p\<lparr>log_files := (log_files p)
                   (reason \<mapsto> open_w (path_join (logs_folder p) (reason @ str ''.txt'')))\<rparr>)
           p log_reasons"

definition close_logs :: "processor \<Rightarrow> processor" where
  "close_logs p = p\<lparr>log_files := map_option file_close \<circ> log_files p\<rparr>"

definition log_rejection :: "processor \<Rightarrow> pystr \<Rightarrow> nat \<Rightarrow> pystr \<Rightarrow> processor" where
  "log_rejection p reason line_num line_content =
     (case log_files p reason of
        None \<Rightarrow> p
      | Some f \<Rightarrow>
          p\<lparr>log_files := (log_files p)
               (reason \<mapsto> file_write f (str ''Line '' @ str_of_nat line_num @ str '': ''
                                      @ line_content @ [LF]))\<rparr>)"

subsection \<open>The commands and the lock\<close>

text \<open>
  \<^verbatim>\<open>with self.lock:\<close> around a block that only assigns. The result is \<open>None\<close>
  when the lock is held: the calling thread waits in \<^verbatim>\<open>acquire\<close>.
\<close>

definition with_lock :: "(processor \<Rightarrow> processor) \<Rightarrow> processor \<Rightarrow> processor option" where
  "with_lock f p = (if lock p then None else Some ((f (p\<lparr>lock := True\<rparr>))\<lparr>lock := False\<rparr>))"

definition pause :: "processor \<Rightarrow> processor option" where
  "pause = with_lock (\<lambda>p. p\<lparr>is_paused := True\<rparr>)"

definition resume :: "processor \<Rightarrow> processor option" where
  "resume = with_lock (\<lambda>p. p\<lparr>is_paused := False\<rparr>)"

definition stop :: "processor \<Rightarrow> processor option" where
  "stop = with_lock (\<lambda>p. p\<lparr>is_running := False\<rparr>)"

fun run_command :: "command \<Rightarrow> processor \<Rightarrow> processor option" where
  "run_command Pause = pause"
| "run_command Resume = resume"
| "run_command Stop = stop"

text \<open>
  A call made by the controlling thread, seen from the worker: a call that waits for the
  lock has changed nothing yet.
\<close>

definition call :: "command \<Rightarrow> processor \<Rightarrow> processor" where
  "call c p = (case run_command c p of None \<Rightarrow> p | Some p' \<Rightarrow> p')"

definition calls :: "command list \<Rightarrow> processor \<Rightarrow> processor" where
  "calls cs p = fold call cs p"

text \<open>
  The calls of the controlling thread are an input of the run: \<open>sched n 0\<close> are the calls
  made before the worker takes the lock for line \<open>n\<close>, and \<open>sched n i\<close>, for \<open>i > 0\<close>, the
  calls made during the worker's \<open>i\<close>-th sleep in the pause loop of line \<open>n\<close>.
\<close>

type_synonym schedule = "nat \<Rightarrow> nat \<Rightarrow> command list"

definition no_calls :: schedule where
  "no_calls = (\<lambda>n i. [])"

text \<open>
  \<^verbatim>\<open>while self.is_paused and self.is_running: time.sleep(0.1)\<close>, which the worker runs
  while it holds the lock. The loop may run forever: \<open>None\<close> is not returning.
\<close>

partial_function (option) pause_wait :: "(nat \<Rightarrow> command list) \<Rightarrow> nat \<Rightarrow> processor \<Rightarrow> processor option" where
  "pause_wait during i p =
     (if is_paused p \<and> is_running p then pause_wait during (Suc i) (calls (during i) p)
      else Some p)"

declare pause_wait.simps [code]

subsection \<open>The loop of process_files\<close>

text \<open>The body of the loop from the call of \<^verbatim>\<open>validate_line\<close> on.\<close>

definition process_line :: "processor \<Rightarrow> nat \<Rightarrow> pystr \<Rightarrow> processor" where
  "process_line p0 line_num line =
     (case validate_line line line_num of (is_valid, reason, clean_line) \<Rightarrow>
        let p1 =
              (if is_valid then
                 if clean_line \<in> existing_lines p0 then
                   (log_rejection p0 (str ''Duplicate'') line_num clean_line)
                     \<lparr>rejected_lines := rejected_lines p0 + 1\<rparr>
                 else
                   p0\<lparr>master_fd := map_option (\<lambda>f. file_write f (clean_line @ [LF])) (master_fd p0),
                      existing_lines := insert clean_line (existing_lines p0),
                      valid_lines := valid_lines p0 + 1\<rparr>
               else
                 (log_rejection p0 reason line_num clean_line)
                   \<lparr>rejected_lines := rejected_lines p0 + 1\<rparr>);
            p2 = p1\<lparr>processed_lines := line_num\<rparr>
        in if line_num mod 100 = 0 \<or> line_num = total_lines p2
           then emit (Update_progress (total_lines p2) (processed_lines p2)
                        (valid_lines p2) (rejected_lines p2)) p2
           else p2)"

text \<open>
  The loop over the lines of the target file. Each round first takes the lock and looks at
  the flags: it leaves the loop when \<open>is_running\<close> is off, and otherwise goes through the
  pause loop, releases the lock and handles the line.
\<close>

fun process_lines :: "schedule \<Rightarrow> nat \<Rightarrow> processor \<Rightarrow> pystr list \<Rightarrow> processor option" where
  "process_lines sched line_num0 p0 [] = Some p0"
| "process_lines sched line_num0 p0 (line # rest) =
     (let line_num = Suc line_num0;
          p1 = calls (sched line_num 0) p0
      in if lock p1 then None
         else
           let p2 = p1\<lparr>lock := True\<rparr>
           in if \<not> is_running p2 then Some (p2\<lparr>lock := False\<rparr>)
              else
                do {
                  p3 \<leftarrow> pause_wait (sched line_num) 1 p2;
                  process_lines sched line_num
                    (process_line (p3\<lparr>lock := False\<rparr>) line_num line) rest
                })"

subsection \<open>process_files\<close>

definition preload :: "master_state \<Rightarrow> pystr set" where
  "preload m = (case m of Absent c \<Rightarrow> {} | Present t w \<Rightarrow> set (map strip (readlines t)))"

definition open_a :: "master_state \<Rightarrow> pystr \<Rightarrow> error + file_obj" where
  "open_a m pth =
     (case m of
        Absent c \<Rightarrow>
          if c then Inr \<lparr>path = pth, content = [], closed = False\<rparr> else Inl Master_open_failed
      | Present t w \<Rightarrow>
          if w then Inr \<lparr>path = pth, content = t, closed = False\<rparr> else Inl Master_open_failed)"

text \<open>The statements after the loop, up to the completion signal.\<close>

definition teardown :: "processor \<Rightarrow> processor" where
  "teardown p0 =
     (let p1 = p0\<lparr>master_fd := map_option file_close (master_fd p0)\<rparr>;
          p2 = close_logs p1;
          p3 = emit (Update_progress (total_lines p2) (processed_lines p2)
                       (valid_lines p2) (rejected_lines p2)) p2
      in emit Processing_complete p3)"

text \<open>
  The statements between the first pass over the target file and the loop: the count of
  the lines, the log files, the index of the lines of the master file, and the master file
  opened for appending. \<open>Inl\<close> is an exception, with the state in which it was raised.
\<close>

definition initialize :: "filesystem \<Rightarrow> pystr \<Rightarrow> processor \<Rightarrow> error \<times> processor + processor" where
  "initialize fs target_text p0 =
     (let p1 = p0\<lparr>total_lines := length (readlines target_text)\<rparr>
      in if \<not> logs_creatable fs then Inl (Logs_open_failed, p1)
         else
           let p2 = initialize_logs p1;
               p3 = p2\<lparr>existing_lines := preload (master fs)\<rparr>
           in (case open_a (master fs) (master_file p3) of
                 Inl e \<Rightarrow> Inl (e, p3)
               | Inr fd \<Rightarrow> Inr (p3\<lparr>master_fd := Some fd\<rparr>)))"

text \<open>
  The \<^verbatim>\<open>try\<close> block after its first statement. The target file is opened a first
  time for the count of its lines and a second time for the loop.
\<close>

definition try_block :: "filesystem \<Rightarrow> schedule \<Rightarrow> processor \<Rightarrow> (error \<times> processor + processor) option" where
  "try_block fs sched p0 =
     (case target fs of
        None \<Rightarrow> Some (Inl (Target_open_failed, p0))
      | Some target_text \<Rightarrow>
          (case initialize fs target_text p0 of
             Inl e \<Rightarrow> Some (Inl e)
           | Inr p1 \<Rightarrow>
               (case target_loop fs of
                  None \<Rightarrow> Some (Inl (Target_open_failed, p1))
                | Some loop_text \<Rightarrow>
                    do {
                      p2 \<leftarrow> process_lines sched 0 p1 (readlines loop_text);
                      Some (Inr (teardown p2))
                    })))"

definition process_files :: "filesystem \<Rightarrow> schedule \<Rightarrow> processor \<Rightarrow> processor option" where
  "process_files fs sched p0 =
     do {
       p1 \<leftarrow> with_lock (\<lambda>p. p\<lparr>is_running := True, is_paused := False\<rparr>) p0;
       r \<leftarrow> try_block fs sched p1;
       with_lock (\<lambda>p. p\<lparr>is_running := False\<rparr>)
         (case r of Inl (e, p2) \<Rightarrow> emit (Error_occurred e) p2 | Inr p2 \<Rightarrow> p2)
     }"

text \<open>The master file on disk after a run: every write to it was flushed at once.\<close>

definition master_after :: "filesystem \<Rightarrow> processor \<Rightarrow> master_state" where
  "master_after fs p = (case master_fd p of None \<Rightarrow> master fs | Some f \<Rightarrow> Present (content f) True)"

text \<open>
  Two runs one after the other: the second run finds the master file as the first run
  left it. The result is the pair of the final states.
\<close>

definition run_twice :: "filesystem \<Rightarrow> schedule \<Rightarrow> processor \<Rightarrow> (processor \<times> processor) option" where
  "run_twice fs sched p0 =
     do {
       p1 \<leftarrow> process_files fs sched p0;
       p2 \<leftarrow> process_files (fs\<lparr>master := master_after fs p1\<rparr>) sched p0;
       Some (p1, p2)
     }"

section \<open>Functions used to state the properties\<close>

text \<open>The loop when no round finds a flag changed: every line is handled in turn.\<close>

fun handle_lines :: "nat \<Rightarrow> processor \<Rightarrow> pystr list \<Rightarrow> processor" where
  "handle_lines line_num p [] = p"
| "handle_lines line_num p (line # rest) =
     handle_lines (Suc line_num) (process_line p (Suc line_num) line) rest"

text \<open>
  The valid records among some lines that are not in an index and have not occurred
  before among these lines, in the order of the lines.
\<close>

fun accepted :: "pystr set \<Rightarrow> pystr list \<Rightarrow> pystr list" where
  "accepted idx [] = []"
| "accepted idx (line # rest) =
     (if fst (validate_line line 0) \<and> strip line \<notin> idx
      then strip line # accepted (insert (strip line) idx) rest
      else accepted idx rest)"

text \<open>The text that writing some records to the master file adds to it.\<close>

definition records_text :: "pystr list \<Rightarrow> pystr" where
  "records_text rs = concat (map (\<lambda>r. r @ [LF]) rs)"

text \<open>The entry of a log file for a line number and a text.\<close>

definition log_entry :: "nat \<Rightarrow> pystr \<Rightarrow> pystr" where
  "log_entry n s = str ''Line '' @ str_of_nat n @ str '': '' @ s @ [LF]"

text \<open>
  The entries for the valid lines among some lines, numbered from \<open>n + 1\<close>: what the log
  of the duplicates receives when every valid line is a duplicate.
\<close>

fun duplicate_log :: "nat \<Rightarrow> pystr list \<Rightarrow> pystr" where
  "duplicate_log n [] = []"
| "duplicate_log n (line # rest) =
     (if fst (validate_line line 0) then log_entry (Suc n) (strip line) else [])
       @ duplicate_log (Suc n) rest"

text \<open>
  The target file has not more lines when it is opened for the loop than it had when its
  lines were counted.
\<close>

definition target_not_grown :: "filesystem \<Rightarrow> bool" where
  "target_not_grown fs =
     (case target fs of
        None \<Rightarrow> True
      | Some t \<Rightarrow>
          (case target_loop fs of
             None \<Rightarrow> True
           | Some t' \<Rightarrow> length (readlines t') \<le> length (readlines t)))"

section \<open>Example inputs\<close>

definition example_target :: pystr where
  "example_target = str ''alice:http://x.com:pw1'' @ [LF] @ str ''  a:b  '' @ [LF] @ [LF]
      @ str ''alice:http://x.com:pw1'' @ [LF] @ str ''u:v:w''"

definition example_fs :: filesystem where
  "example_fs = \<lparr>target = Some example_target, target_loop = Some example_target,
      master = Present (str ''x:y:z'' @ [LF]) True,
      logs_creatable = True\<rparr>"

definition example_processor :: processor where
  "example_processor = FileProcessor (str ''master.txt'') (str ''target.txt'') (str ''Logs'')"

text \<open>The schedule in which \<open>stop\<close> is called once, before the round for line \<open>n\<close>.\<close>

definition stop_at :: "nat \<Rightarrow> schedule" where
  "stop_at n = (\<lambda>k i. if k = n \<and> i = 0 then [Stop] else [])"


text \<open>The same, with a master file that does not end with a line end.\<close>

definition example_fs2 :: filesystem where
  "example_fs2 = example_fs\<lparr>master := Present (str ''x:y:z'') True\<rparr>"

text \<open>The same, with a master file that cannot be opened for appending.\<close>

definition example_fs3 :: filesystem where
  "example_fs3 = example_fs\<lparr>master := Present (str ''x:y:z'' @ [LF]) False\<rparr>"

text \<open>
  The schedule in which \<open>pause\<close> is called once, before the round for line 2, and
  \<open>resume\<close> and then \<open>stop\<close> are called during every sleep of the worker after that.
\<close>

definition pause_then_resume :: schedule where
  "pause_then_resume = (\<lambda>k i. if k = 2 \<and> i = 0 then [Pause] else if k = 2 then [Resume, Stop] else [])"

text \<open>
  The same as the first, with a target file that holds two lines when its lines are counted
  and has grown to the five lines of the example when it is opened for the loop.
\<close>

definition example_fs_grown :: filesystem where
  "example_fs_grown =
     example_fs\<lparr>target := Some (str ''alice:http://x.com:pw1'' @ [LF] @ str ''  a:b  '' @ [LF])\<rparr>"

text \<open>
  The schedule in which \<open>pause\<close> is called once, before the round for line 3, and
  \<open>stop\<close> is called during every sleep of the worker after that and before every later
  round.
\<close>

definition pause_then_stop :: schedule where
  "pause_then_stop = (\<lambda>k i. if k = 3 \<and> i = 0 then [Pause] else if 3 \<le> k then [Stop] else [])"

text \<open>
  Whether \<open>is_paused\<close> is set after some calls made while the lock is free, given whether
  it was set before them.
\<close>

fun paused_after :: "command list \<Rightarrow> bool \<Rightarrow> bool" where
  "paused_after [] b = b"
| "paused_after (Pause # cs) b = paused_after cs True"
| "paused_after (Resume # cs) b = paused_after cs False"
| "paused_after (Stop # cs) b = paused_after cs b"

text \<open>For each of the three reasons, whether its log file is closed.\<close>

definition log_states :: "processor \<Rightarrow> bool option list" where
  "log_states p = map (\<lambda>reason. map_option closed (log_files p reason)) log_reasons"

section \<open>The classifier\<close>

lemma count_after_cut:
  "sep \<in> set s \<Longrightarrow>
   count_list s sep = Suc (count_list (tl (dropWhile (\<lambda>c. c \<noteq> sep) s)) sep)"
  by (induction s) auto

lemma count_list_zero: "sep \<notin> set s \<Longrightarrow> count_list s sep = 0"
  by (induction s) auto

lemma length_str_split: "length (str_split sep k s) = Suc (min k (count_list s sep))"
proof (induction k arbitrary: s)
  case 0
  show ?case by simp
next
  case (Suc k)
  show ?case
  proof (cases "sep \<in> set s")
    case True
    then show ?thesis
      using Suc [of "tl (dropWhile (\<lambda>c. c \<noteq> sep) s)"] count_after_cut [OF True]
      by simp
  next
    case False
    then show ?thesis by (simp add: count_list_zero)
  qed
qed

lemmas string_eval = strip_def lstrip_def rstrip_def isspace_def str_def colon_def LF_def

text \<open>What \<^verbatim>\<open>strip\<close> removes, and what the split at the colon yields.\<close>

lemma lstrip_parts:
  "lstrip line = strip line @ rev (takeWhile isspace (rev (lstrip line)))"
proof -
  have "rev (lstrip line)
      = takeWhile isspace (rev (lstrip line)) @ dropWhile isspace (rev (lstrip line))"
    by simp
  then have "rev (rev (lstrip line))
      = rev (takeWhile isspace (rev (lstrip line)) @ dropWhile isspace (rev (lstrip line)))"
    by (rule arg_cong)
  then show ?thesis
    by (simp only: rev_rev_ident rev_append strip_def rstrip_def)
qed

lemma strip_parts:
  "line = takeWhile isspace line @ strip line @ rev (takeWhile isspace (rev (lstrip line)))"
proof -
  have "line = takeWhile isspace line @ lstrip line"
    by (simp add: lstrip_def)
  then show ?thesis using lstrip_parts [of line] by simp
qed

lemma strip_ends:
  assumes "strip line \<noteq> []"
  shows "\<not> isspace (hd (strip line)) \<and> \<not> isspace (last (strip line))"
proof -
  let ?m = "lstrip line"
  have m: "?m = strip line @ rev (takeWhile isspace (rev ?m))"
    by (rule lstrip_parts)
  have "?m \<noteq> []" using assms m by auto
  then have "\<not> isspace (hd ?m)" unfolding lstrip_def by (metis hd_dropWhile)
  moreover have "hd ?m = hd (strip line)" using assms m by (metis hd_append2)
  ultimately have h: "\<not> isspace (hd (strip line))" by simp
  have d: "dropWhile isspace (rev ?m) \<noteq> []"
    using assms by (simp add: strip_def rstrip_def)
  then have "\<not> isspace (hd (dropWhile isspace (rev ?m)))" by (metis hd_dropWhile)
  moreover have "last (strip line) = hd (dropWhile isspace (rev ?m))"
    using d by (simp add: strip_def rstrip_def last_rev)
  ultimately show ?thesis using h by simp
qed

lemma strip_Nil_iff: "strip line = [] \<longleftrightarrow> list_all isspace line"
proof
  assume "strip line = []"
  then have "line = takeWhile isspace line @ rev (takeWhile isspace (rev (lstrip line)))"
    using strip_parts [of line] by simp
  moreover have "list_all isspace (takeWhile isspace line)"
    by (auto simp add: list_all_iff dest: set_takeWhileD)
  moreover have "list_all isspace (rev (takeWhile isspace (rev (lstrip line))))"
    by (auto simp add: list_all_iff dest: set_takeWhileD)
  ultimately show "list_all isspace line" by (metis list_all_append)
next
  assume "list_all isspace line"
  then have "dropWhile isspace line = []" by (metis dropWhile_eq_Nil_conv list_all_iff)
  then show "strip line = []"
    by (auto simp add: strip_def lstrip_def rstrip_def dest: set_dropWhileD)
qed

lemma str_split_three:
  assumes "str_split sep 2 s = [x, y, z]"
  shows "s = x @ [sep] @ y @ [sep] @ z \<and> sep \<notin> set x \<and> sep \<notin> set y"
proof -
  let ?r = "tl (dropWhile (\<lambda>c. c \<noteq> sep) s)"
  have two: "str_split sep 2 s = str_split sep (Suc (Suc 0)) s" by (simp add: numeral_2_eq_2)
  have in1: "sep \<in> set s" using assms unfolding two by (auto split: if_splits)
  then have x: "x = takeWhile (\<lambda>c. c \<noteq> sep) s" and rest: "str_split sep (Suc 0) ?r = [y, z]"
    using assms unfolding two by simp_all
  have in2: "sep \<in> set ?r" using rest by (auto split: if_splits)
  then have y: "y = takeWhile (\<lambda>c. c \<noteq> sep) ?r" and z: "z = tl (dropWhile (\<lambda>c. c \<noteq> sep) ?r)"
    using rest by simp_all
  have cut: "u = takeWhile (\<lambda>c. c \<noteq> sep) u @ [sep] @ tl (dropWhile (\<lambda>c. c \<noteq> sep) u)"
    if "sep \<in> set u" for u
  proof -
    have "dropWhile (\<lambda>c. c \<noteq> sep) u \<noteq> []" using that by simp
    moreover have "hd (dropWhile (\<lambda>c. c \<noteq> sep) u) = sep"
      using that by (metis (mono_tags, lifting) calculation hd_dropWhile)
    ultimately have "dropWhile (\<lambda>c. c \<noteq> sep) u = sep # tl (dropWhile (\<lambda>c. c \<noteq> sep) u)"
      by (metis list.collapse)
    then show ?thesis by (metis append_Cons append_Nil takeWhile_dropWhile_id)
  qed
  have "s = x @ [sep] @ ?r" using cut [OF in1] x by simp
  moreover have "?r = y @ [sep] @ z" using cut [OF in2] y z by simp
  moreover have "sep \<notin> set x" unfolding x by (auto dest: set_takeWhileD)
  moreover have "sep \<notin> set y" unfolding y by (auto dest: set_takeWhileD)
  ultimately show ?thesis by simp
qed

text \<open>
  C1. \<^verbatim>\<open>validate_line\<close> applies its rules in order: a line that is empty once stripped is
  rejected as an empty line; otherwise a line whose split at the colon, with at most two
  cuts, does not have three parts is rejected for not having enough parts; otherwise the line
  is valid, and the record is the whole stripped line.
  The stripped line is the line without its leading and trailing white space: the line is
  the stripped line between two runs of white space, the stripped line neither starts nor
  ends with white space, and it is empty exactly when the line holds white space only.
  The split has one part more than the line has colons, and never more than three; when
  there are three, the first two hold no colon and the line is the three parts joined by
  colons. So \<^verbatim>\<open>user:example.com\<close> has not enough parts, and \<^verbatim>\<open>a:b:c:d\<close> is valid with
  the record \<^verbatim>\<open>a:b:c:d\<close>, its third part being \<^verbatim>\<open>c:d\<close>; the same holds when the
  lines come with blanks, tabs and line ends around them, and white space inside a line
  stays.
\<close>

theorem validate_line_classifies:
  "validate_line line n =
     (if strip line = [] then (False, str ''Empty Line'', strip line)
      else if length (str_split colon 2 (strip line)) \<noteq> 3
        then (False, str ''Not Enough Parts'', strip line)
      else (True, str ''Valid'', strip line))
   \<and> (\<exists>pre post. line = pre @ strip line @ post
          \<and> list_all isspace pre \<and> list_all isspace post)
   \<and> (strip line \<noteq> [] \<longrightarrow> \<not> isspace (hd (strip line)) \<and> \<not> isspace (last (strip line)))
   \<and> (strip line = [] \<longleftrightarrow> list_all isspace line)
   \<and> length (str_split colon 2 (strip line)) = Suc (min 2 (count_list (strip line) colon))
   \<and> (\<forall>x y z. str_split colon 2 (strip line) = [x, y, z] \<longrightarrow>
          strip line = x @ [colon] @ y @ [colon] @ z \<and> colon \<notin> set x \<and> colon \<notin> set y)
   \<and> validate_line (str ''user:example.com'') n
       = (False, str ''Not Enough Parts'', str ''user:example.com'')
   \<and> validate_line (str ''a:b:c:d'') n = (True, str ''Valid'', str ''a:b:c:d'')
   \<and> str_split colon 2 (str ''a:b:c:d'') = [str ''a'', str ''b'', str ''c:d'']
   \<and> validate_line ([9] @ str '' a:b:c:d  '' @ [13, LF]) n = (True, str ''Valid'', str ''a:b:c:d'')
   \<and> validate_line (str ''  user:example.com '' @ [LF]) n
       = (False, str ''Not Enough Parts'', str ''user:example.com'')
   \<and> validate_line (str ''a b:c: d'' @ [LF]) n = (True, str ''Valid'', str ''a b:c: d'')
   \<and> validate_line (str ''  '' @ [9, LF]) n = (False, str ''Empty Line'', [])
   \<and> validate_line [] n = (False, str ''Empty Line'', [])"
proof -
  have a: "validate_line line n =
     (if strip line = [] then (False, str ''Empty Line'', strip line)
      else if length (str_split colon 2 (strip line)) \<noteq> 3
        then (False, str ''Not Enough Parts'', strip line)
      else (True, str ''Valid'', strip line))"
    by (simp add: validate_line_def Let_def)
  have s1: "\<exists>pre post. line = pre @ strip line @ post
          \<and> list_all isspace pre \<and> list_all isspace post"
  proof (intro exI conjI)
    show "line = takeWhile isspace line @ strip line
        @ rev (takeWhile isspace (rev (lstrip line)))"
      by (rule strip_parts)
    show "list_all isspace (takeWhile isspace line)"
      by (auto simp add: list_all_iff dest: set_takeWhileD)
    show "list_all isspace (rev (takeWhile isspace (rev (lstrip line))))"
      by (auto simp add: list_all_iff dest: set_takeWhileD)
  qed
  have s2: "strip line \<noteq> [] \<longrightarrow> \<not> isspace (hd (strip line)) \<and> \<not> isspace (last (strip line))"
    using strip_ends [of line] by blast
  have s3: "strip line = [] \<longleftrightarrow> list_all isspace line"
    by (rule strip_Nil_iff)
  have b: "length (str_split colon 2 (strip line)) = Suc (min 2 (count_list (strip line) colon))"
    by (rule length_str_split)
  have b2: "\<forall>x y z. str_split colon 2 (strip line) = [x, y, z] \<longrightarrow>
          strip line = x @ [colon] @ y @ [colon] @ z \<and> colon \<notin> set x \<and> colon \<notin> set y"
    using str_split_three [of colon "strip line"] by blast
  have c: "validate_line (str ''user:example.com'') n
       = (False, str ''Not Enough Parts'', str ''user:example.com'')"
    by (simp add: validate_line_def string_eval numeral_2_eq_2)
  have d: "validate_line (str ''a:b:c:d'') n = (True, str ''Valid'', str ''a:b:c:d'')"
    by (simp add: validate_line_def string_eval numeral_2_eq_2)
  have e: "str_split colon 2 (str ''a:b:c:d'') = [str ''a'', str ''b'', str ''c:d'']"
    by (simp add: string_eval numeral_2_eq_2)
  have f: "validate_line ([9] @ str '' a:b:c:d  '' @ [13, LF]) n
       = (True, str ''Valid'', str ''a:b:c:d'')"
    by (simp add: validate_line_def string_eval numeral_2_eq_2)
  have g: "validate_line (str ''  user:example.com '' @ [LF]) n
       = (False, str ''Not Enough Parts'', str ''user:example.com'')"
    by (simp add: validate_line_def string_eval numeral_2_eq_2)
  have h: "validate_line (str ''a b:c: d'' @ [LF]) n = (True, str ''Valid'', str ''a b:c: d'')"
    by (simp add: validate_line_def string_eval numeral_2_eq_2)
  have i: "validate_line (str ''  '' @ [9, LF]) n = (False, str ''Empty Line'', [])"
    by (simp add: validate_line_def string_eval numeral_2_eq_2)
  have j: "validate_line [] n = (False, str ''Empty Line'', [])"
    by (simp add: validate_line_def string_eval)
  from a s1 s2 s3 b b2 c d e f g h i j show ?thesis by blast
qed

theorem validate_line_classifies_witness:
  "strip (str ''  a:b:c:d '' @ [LF]) \<noteq> []
   \<and> str_split colon 2 (strip (str ''  a:b:c:d '' @ [LF])) = [str ''a'', str ''b'', str ''c:d'']
   \<and> strip (str ''  a:b:c:d '' @ [LF]) = str ''a'' @ [colon] @ str ''b'' @ [colon] @ str ''c:d''
   \<and> \<not> isspace (hd (strip (str ''  a:b:c:d '' @ [LF])))
   \<and> \<not> isspace (last (strip (str ''  a:b:c:d '' @ [LF])))
   \<and> validate_line (str ''  a:b:c:d '' @ [LF]) 1 = (True, str ''Valid'', str ''a:b:c:d'')"
  using validate_line_classifies [of "str ''  a:b:c:d '' @ [LF]" 1]
  by (simp add: string_eval numeral_2_eq_2)

section \<open>The lock and the pause loop\<close>

lemma call_locked: "lock p \<Longrightarrow> call c p = p"
  by (cases c) (simp_all add: call_def pause_def resume_def stop_def with_lock_def)

lemma calls_locked: "lock p \<Longrightarrow> calls cs p = p"
  by (induction cs) (simp_all add: calls_def call_locked)

lemma call_unlocked:
  "\<not> lock p \<Longrightarrow> call c p =
     (case c of Pause \<Rightarrow> p\<lparr>is_paused := True\<rparr> | Resume \<Rightarrow> p\<lparr>is_paused := False\<rparr>
      | Stop \<Rightarrow> p\<lparr>is_running := False\<rparr>)"
  by (cases c) (simp_all add: call_def pause_def resume_def stop_def with_lock_def)

lemma calls_Nil: "calls [] p = p"
  by (simp add: calls_def)

lemma calls_Cons: "calls (c # cs) p = calls cs (call c p)"
  by (simp add: calls_def)

lemma calls_flags:
  "\<not> lock p \<Longrightarrow> calls cs p =
     p\<lparr>is_running := is_running p \<and> Stop \<notin> set cs, is_paused := is_paused (calls cs p)\<rparr>"
proof (induction cs arbitrary: p)
  case Nil
  then show ?case by (simp add: calls_Nil)
next
  case (Cons c cs)
  have u: "\<not> lock (call c p)" using Cons.prems by (cases c) (simp_all add: call_unlocked)
  show ?case
    using Cons.IH [OF u] Cons.prems
    by (cases c) (simp_all add: calls_Cons call_unlocked)
qed

lemma pause_wait_locked:
  "lock p \<Longrightarrow> pause_wait d i p = (if is_paused p \<and> is_running p then None else Some p)"
proof (cases "is_paused p \<and> is_running p")
  case False
  have "pause_wait d i p =
    (if is_paused p \<and> is_running p then pause_wait d (Suc i) (calls (d i) p) else Some p)"
    by (rule pause_wait.simps)
  with False show ?thesis by auto
next
  case True
  assume l: "lock p"
  have "\<And>q. pause_wait d i p = Some q \<Longrightarrow> \<not> (lock p \<and> is_paused p \<and> is_running p)"
  proof -
    fix q assume "pause_wait d i p = Some q"
    then show "\<not> (lock p \<and> is_paused p \<and> is_running p)"
    proof (induction rule: pause_wait.raw_induct [rotated 1, consumes 1])
      case (1 pw d i p q)
      show ?case
      proof
        assume h: "lock p \<and> is_paused p \<and> is_running p"
        then have "pw d (Suc i) p = Some q" using 1(2) by (simp add: calls_locked)
        from 1(1) [OF this] h show False by simp
      qed
    qed
  qed
  with True l show ?thesis by (cases "pause_wait d i p") auto
qed

section \<open>One round of the loop\<close>

lemma validate_line_num: "validate_line l n = validate_line l 0"
  by (simp add: validate_line_def)

lemma validate_line_record: "snd (snd (validate_line l n)) = strip l"
  by (simp add: validate_line_def Let_def)

lemma validate_line_triple:
  "validate_line l n = (fst (validate_line l 0), fst (snd (validate_line l 0)), strip l)"
  by (simp add: validate_line_def Let_def)

lemma log_rejection_fields [simp]:
  "lock (log_rejection p r n c) = lock p"
  "is_running (log_rejection p r n c) = is_running p"
  "is_paused (log_rejection p r n c) = is_paused p"
  "total_lines (log_rejection p r n c) = total_lines p"
  "processed_lines (log_rejection p r n c) = processed_lines p"
  "valid_lines (log_rejection p r n c) = valid_lines p"
  "rejected_lines (log_rejection p r n c) = rejected_lines p"
  "existing_lines (log_rejection p r n c) = existing_lines p"
  "master_fd (log_rejection p r n c) = master_fd p"
  "emitted (log_rejection p r n c) = emitted p"
  "logs_folder (log_rejection p r n c) = logs_folder p"
  "master_file (log_rejection p r n c) = master_file p"
  "target_file (log_rejection p r n c) = target_file p"
  by (simp_all add: log_rejection_def split: option.splits)

lemma log_rejection_log_files:
  "log_files (log_rejection p r n c) =
     (case log_files p r of None \<Rightarrow> log_files p
      | Some f \<Rightarrow> (log_files p)(r \<mapsto> file_write f (log_entry n c)))"
  by (simp add: log_rejection_def log_entry_def split: option.splits)

lemma emit_fields [simp]:
  "lock (emit s p) = lock p"
  "is_running (emit s p) = is_running p"
  "is_paused (emit s p) = is_paused p"
  "total_lines (emit s p) = total_lines p"
  "processed_lines (emit s p) = processed_lines p"
  "valid_lines (emit s p) = valid_lines p"
  "rejected_lines (emit s p) = rejected_lines p"
  "existing_lines (emit s p) = existing_lines p"
  "master_fd (emit s p) = master_fd p"
  "log_files (emit s p) = log_files p"
  "emitted (emit s p) = emitted p @ [s]"
  "logs_folder (emit s p) = logs_folder p"
  "master_file (emit s p) = master_file p"
  "target_file (emit s p) = target_file p"
  by (simp_all add: emit_def)

lemmas process_line_unfold = process_line_def Let_def

lemma process_line_fields [simp]:
  "lock (process_line p n l) = lock p"
  "is_running (process_line p n l) = is_running p"
  "is_paused (process_line p n l) = is_paused p"
  "total_lines (process_line p n l) = total_lines p"
  "logs_folder (process_line p n l) = logs_folder p"
  "master_file (process_line p n l) = master_file p"
  "target_file (process_line p n l) = target_file p"
  "processed_lines (process_line p n l) = n"
  by (simp_all add: process_line_unfold validate_line_triple [of l n])

lemma process_line_valid_lines:
  "valid_lines (process_line p n l) =
     (if fst (validate_line l 0) \<and> strip l \<notin> existing_lines p
      then Suc (valid_lines p) else valid_lines p)"
  by (simp add: process_line_unfold validate_line_triple [of l n])

lemma process_line_rejected_lines:
  "rejected_lines (process_line p n l) =
     (if fst (validate_line l 0) \<and> strip l \<notin> existing_lines p
      then rejected_lines p else Suc (rejected_lines p))"
  by (simp add: process_line_unfold validate_line_triple [of l n])

lemma process_line_counters:
  "valid_lines (process_line p n l) + rejected_lines (process_line p n l)
     = Suc (valid_lines p + rejected_lines p)"
  by (simp add: process_line_valid_lines process_line_rejected_lines)

lemma process_line_existing_lines:
  "existing_lines (process_line p n l) =
     (if fst (validate_line l 0) then insert (strip l) (existing_lines p) else existing_lines p)"
  by (simp add: process_line_unfold validate_line_triple [of l n] insert_absorb)

lemma process_line_master_fd:
  "master_fd (process_line p n l) =
     (if fst (validate_line l 0) \<and> strip l \<notin> existing_lines p
      then map_option (\<lambda>f. file_write f (strip l @ [LF])) (master_fd p) else master_fd p)"
  by (simp add: process_line_unfold validate_line_triple [of l n])

lemma process_line_emitted:
  "emitted (process_line p n l) =
     emitted p @
       (if n mod 100 = 0 \<or> n = total_lines p
        then [Update_progress (total_lines p) n (valid_lines (process_line p n l))
                (rejected_lines (process_line p n l))]
        else [])"
  by (simp add: process_line_unfold validate_line_triple [of l n])

lemma process_line_log_files:
  "log_files (process_line p n l) =
     (if fst (validate_line l 0) \<and> strip l \<notin> existing_lines p then log_files p
      else if fst (validate_line l 0)
        then log_files (log_rejection p (str ''Duplicate'') n (strip l))
        else log_files (log_rejection p (fst (snd (validate_line l 0))) n (strip l)))"
  by (simp add: process_line_unfold validate_line_triple [of l n])

lemma call_lock [simp]: "lock (call c p) = lock p"
  by (cases "lock p"; cases c) (simp_all add: call_locked call_unlocked)

lemma calls_lock [simp]: "lock (calls cs p) = lock p"
  by (induction cs arbitrary: p) (simp_all add: calls_Nil calls_Cons)

lemma unlock_unlocked: "\<not> lock p \<Longrightarrow> p\<lparr>lock := False\<rparr> = p"
  by (cases p) simp

lemma process_lines_Cons:
  assumes u: "\<not> lock p"
  shows "process_lines sched n p (l # ls) =
     (if \<not> is_running (calls (sched (Suc n) 0) p) then Some (calls (sched (Suc n) 0) p)
      else if is_paused (calls (sched (Suc n) 0) p) then None
      else process_lines sched (Suc n) (process_line (calls (sched (Suc n) 0) p) (Suc n) l) ls)"
proof -
  define p1 where "p1 = calls (sched (Suc n) 0) p"
  have l1: "\<not> lock p1"
    using u p1_def by simp
  have "process_lines sched n p (l # ls) =
     (if \<not> is_running p1 then Some (p1\<lparr>lock := True\<rparr>\<lparr>lock := False\<rparr>)
      else pause_wait (sched (Suc n)) (Suc 0) (p1\<lparr>lock := True\<rparr>) \<bind>
           (\<lambda>p3. process_lines sched (Suc n) (process_line (p3\<lparr>lock := False\<rparr>) (Suc n) l) ls))"
    using u by (simp add: Let_def p1_def)
  also have "\<dots> = (if \<not> is_running p1 then Some p1
         else if is_paused p1 then None
         else process_lines sched (Suc n) (process_line p1 (Suc n) l) ls)"
    using l1 by (simp add: pause_wait_locked unlock_unlocked)
  finally show ?thesis unfolding p1_def .
qed

section \<open>The loop\<close>

lemma calls_fields [simp]:
  "total_lines (calls cs p) = total_lines p"
  "processed_lines (calls cs p) = processed_lines p"
  "valid_lines (calls cs p) = valid_lines p"
  "rejected_lines (calls cs p) = rejected_lines p"
  "existing_lines (calls cs p) = existing_lines p"
  "master_fd (calls cs p) = master_fd p"
  "log_files (calls cs p) = log_files p"
  "emitted (calls cs p) = emitted p"
  "logs_folder (calls cs p) = logs_folder p"
  "master_file (calls cs p) = master_file p"
  "target_file (calls cs p) = target_file p"
proof -
  have "\<exists>r s. calls cs p = p\<lparr>is_running := r, is_paused := s\<rparr>"
  proof (cases "lock p")
    case True
    then have "calls cs p = p\<lparr>is_running := is_running p, is_paused := is_paused p\<rparr>"
      by (simp add: calls_locked)
    then show ?thesis by blast
  next
    case False
    from calls_flags [OF this] show ?thesis by blast
  qed
  then obtain r s where e: "calls cs p = p\<lparr>is_running := r, is_paused := s\<rparr>" by blast
  show "total_lines (calls cs p) = total_lines p"
    "processed_lines (calls cs p) = processed_lines p"
    "valid_lines (calls cs p) = valid_lines p"
    "rejected_lines (calls cs p) = rejected_lines p"
    "existing_lines (calls cs p) = existing_lines p"
    "master_fd (calls cs p) = master_fd p"
    "log_files (calls cs p) = log_files p"
    "emitted (calls cs p) = emitted p"
    "logs_folder (calls cs p) = logs_folder p"
    "master_file (calls cs p) = master_file p"
    "target_file (calls cs p) = target_file p"
    by (simp_all add: e)
qed

lemma calls_is_running:
  "\<not> lock p \<Longrightarrow> is_running (calls cs p) = (is_running p \<and> Stop \<notin> set cs)"
  by (subst calls_flags) simp_all

lemma handle_lines_fields [simp]:
  "lock (handle_lines n p ls) = lock p"
  "is_running (handle_lines n p ls) = is_running p"
  "is_paused (handle_lines n p ls) = is_paused p"
  "total_lines (handle_lines n p ls) = total_lines p"
  "logs_folder (handle_lines n p ls) = logs_folder p"
  "master_file (handle_lines n p ls) = master_file p"
  "target_file (handle_lines n p ls) = target_file p"
  by (induction ls arbitrary: n p; simp)+

lemma handle_lines_append:
  "handle_lines n p (xs @ ys) = handle_lines (n + length xs) (handle_lines n p xs) ys"
  by (induction xs arbitrary: n p) simp_all

lemma handle_lines_processed:
  "processed_lines (handle_lines n p ls) = (if ls = [] then processed_lines p else n + length ls)"
  by (induction ls arbitrary: n p) simp_all

lemma handle_lines_counters:
  "valid_lines (handle_lines n p ls) + rejected_lines (handle_lines n p ls)
     = valid_lines p + rejected_lines p + length ls"
  by (induction ls arbitrary: n p) (simp_all add: process_line_counters)

text \<open>A schedule without calls before the rounds for some lines lets all of them be handled.\<close>

lemma process_lines_quiet:
  assumes "\<not> lock p" "is_running p" "\<not> is_paused p"
    and "\<And>k. n < k \<Longrightarrow> k \<le> n + length ls \<Longrightarrow> sched k 0 = []"
  shows "process_lines sched n p ls = Some (handle_lines n p ls)"
  using assms
proof (induction ls arbitrary: n p)
  case Nil
  show ?case by simp
next
  case (Cons l ls)
  have q: "sched (Suc n) 0 = []" using Cons.prems(4) [of "Suc n"] by simp
  have "process_lines sched n p (l # ls)
      = process_lines sched (Suc n) (process_line p (Suc n) l) ls"
    using Cons.prems(2,3) by (simp only: process_lines_Cons [OF Cons.prems(1)] q calls_Nil if_False simp_thms)
  also have "\<dots> = Some (handle_lines (Suc n) (process_line p (Suc n) l) ls)"
    using Cons.prems by (intro Cons.IH) simp_all
  finally show ?case by simp
qed

lemma process_lines_no_calls:
  "\<not> lock p \<Longrightarrow> is_running p \<Longrightarrow> \<not> is_paused p \<Longrightarrow>
   process_lines no_calls n p ls = Some (handle_lines n p ls)"
  by (rule process_lines_quiet) (simp_all add: no_calls_def)

lemma process_lines_invariant:
  assumes "process_lines sched n p ls = Some q" "\<not> lock p"
    "valid_lines p + rejected_lines p = n" "processed_lines p = n"
  shows "processed_lines q = valid_lines q + rejected_lines q
         \<and> processed_lines q \<le> n + length ls \<and> total_lines q = total_lines p \<and> \<not> lock q"
  using assms
proof (induction ls arbitrary: n p)
  case Nil
  then show ?case by simp
next
  case (Cons l ls)
  define p1 where "p1 = calls (sched (Suc n) 0) p"
  note step = process_lines_Cons [OF Cons.prems(2), of sched n l ls, folded p1_def]
  show ?case
  proof (cases "is_running p1")
    case False
    with step Cons.prems(1) have "q = p1" by simp
    then show ?thesis using Cons.prems by (simp add: p1_def)
  next
    case True
    with step Cons.prems(1) have np: "\<not> is_paused p1"
      and r: "process_lines sched (Suc n) (process_line p1 (Suc n) l) ls = Some q"
      by (auto split: if_splits)
    have "processed_lines q = valid_lines q + rejected_lines q
         \<and> processed_lines q \<le> Suc n + length ls
         \<and> total_lines q = total_lines (process_line p1 (Suc n) l) \<and> \<not> lock q"
    proof (rule Cons.IH [OF r])
      show "\<not> lock (process_line p1 (Suc n) l)" using Cons.prems(2) by (simp add: p1_def)
      show "valid_lines (process_line p1 (Suc n) l) + rejected_lines (process_line p1 (Suc n) l)
          = Suc n"
        using Cons.prems(3,4) process_line_counters [of p1 "Suc n" l]
        by (simp add: p1_def)
      show "processed_lines (process_line p1 (Suc n) l) = Suc n" by simp
    qed
    then show ?thesis by (simp add: p1_def)
  qed
qed

lemma process_lines_lock:
  assumes "process_lines sched n p ls = Some q" "\<not> lock p"
  shows "\<not> lock q \<and> total_lines q = total_lines p"
  using assms
proof (induction ls arbitrary: n p)
  case Nil
  then show ?case by simp
next
  case (Cons l ls)
  define p1 where "p1 = calls (sched (Suc n) 0) p"
  note step = process_lines_Cons [OF Cons.prems(2), of sched n l ls, folded p1_def]
  show ?case
  proof (cases "is_running p1")
    case False
    with step Cons.prems(1) have "q = p1" by simp
    then show ?thesis using Cons.prems by (simp add: p1_def)
  next
    case True
    with step Cons.prems(1)
    have r: "process_lines sched (Suc n) (process_line p1 (Suc n) l) ls = Some q"
      by (auto split: if_splits)
    have "\<not> lock (process_line p1 (Suc n) l)" using Cons.prems(2) by (simp add: p1_def)
    from Cons.IH [OF r this] show ?thesis by (simp add: p1_def)
  qed
qed

section \<open>The run\<close>

lemma initialize_logs_eq:
  "initialize_logs p =
     p\<lparr>log_files := (log_files p)
        (str ''Not Enough Parts'' \<mapsto>
           open_w (path_join (logs_folder p) (str ''Not Enough Parts'' @ str ''.txt'')),
         str ''Empty Line'' \<mapsto>
           open_w (path_join (logs_folder p) (str ''Empty Line'' @ str ''.txt'')),
         str ''Duplicate'' \<mapsto>
           open_w (path_join (logs_folder p) (str ''Duplicate'' @ str ''.txt'')))\<rparr>"
  by (simp add: initialize_logs_def log_reasons_def)

lemma initialize_logs_fields [simp]:
  "lock (initialize_logs p) = lock p"
  "is_running (initialize_logs p) = is_running p"
  "is_paused (initialize_logs p) = is_paused p"
  "total_lines (initialize_logs p) = total_lines p"
  "processed_lines (initialize_logs p) = processed_lines p"
  "valid_lines (initialize_logs p) = valid_lines p"
  "rejected_lines (initialize_logs p) = rejected_lines p"
  "existing_lines (initialize_logs p) = existing_lines p"
  "master_fd (initialize_logs p) = master_fd p"
  "emitted (initialize_logs p) = emitted p"
  "logs_folder (initialize_logs p) = logs_folder p"
  "master_file (initialize_logs p) = master_file p"
  "target_file (initialize_logs p) = target_file p"
  by (simp_all add: initialize_logs_eq)

lemma initialize_cases:
  "initialize fs t p =
     (if \<not> logs_creatable fs then Inl (Logs_open_failed, p\<lparr>total_lines := length (readlines t)\<rparr>)
      else case open_a (master fs) (master_file p) of
             Inl e \<Rightarrow> Inl (e, (initialize_logs (p\<lparr>total_lines := length (readlines t)\<rparr>))
                               \<lparr>existing_lines := preload (master fs)\<rparr>)
           | Inr fd \<Rightarrow> Inr ((initialize_logs (p\<lparr>total_lines := length (readlines t)\<rparr>))
                               \<lparr>existing_lines := preload (master fs), master_fd := Some fd\<rparr>))"
  by (simp add: initialize_def Let_def)

lemma initialize_Inr_fields:
  assumes "initialize fs t p = Inr q"
  shows "lock q = lock p" "is_running q = is_running p" "is_paused q = is_paused p"
    "total_lines q = length (readlines t)" "processed_lines q = processed_lines p"
    "valid_lines q = valid_lines p" "rejected_lines q = rejected_lines p"
    "existing_lines q = preload (master fs)" "emitted q = emitted p"
    "logs_folder q = logs_folder p"
    "log_files q = log_files (initialize_logs p)"
    "open_a (master fs) (master_file p) = Inr (the (master_fd q))"
    "master_fd q \<noteq> None"
  using assms
  by (auto simp add: initialize_cases initialize_logs_eq split: if_splits sum.splits)

lemma initialize_Inl_fields:
  assumes "initialize fs t p = Inl (e, q)"
  shows "lock q = lock p" "is_running q = is_running p" "is_paused q = is_paused p"
    "total_lines q = length (readlines t)" "processed_lines q = processed_lines p"
    "valid_lines q = valid_lines p" "rejected_lines q = rejected_lines p"
    "emitted q = emitted p" "master_fd q = master_fd p"
  using assms
  by (auto simp add: initialize_cases initialize_logs_eq split: if_splits sum.splits)

lemma with_lock_unlocked:
  "\<not> lock p \<Longrightarrow> with_lock f p = Some ((f (p\<lparr>lock := True\<rparr>))\<lparr>lock := False\<rparr>)"
  by (simp add: with_lock_def)

lemma set_flag_unlocked:
  "\<not> lock p \<Longrightarrow> p\<lparr>lock := True, is_running := r, lock := False\<rparr> = p\<lparr>is_running := r\<rparr>"
  "\<not> lock p \<Longrightarrow> p\<lparr>lock := True, is_running := r, is_paused := s, lock := False\<rparr>
      = p\<lparr>is_running := r, is_paused := s\<rparr>"
  by (cases p; simp)+

lemma teardown_fields [simp]:
  "lock (teardown p) = lock p"
  "is_running (teardown p) = is_running p"
  "is_paused (teardown p) = is_paused p"
  "total_lines (teardown p) = total_lines p"
  "processed_lines (teardown p) = processed_lines p"
  "valid_lines (teardown p) = valid_lines p"
  "rejected_lines (teardown p) = rejected_lines p"
  "existing_lines (teardown p) = existing_lines p"
  "master_fd (teardown p) = map_option file_close (master_fd p)"
  "log_files (teardown p) = map_option file_close \<circ> log_files p"
  "emitted (teardown p) = emitted p @
     [Update_progress (total_lines p) (processed_lines p) (valid_lines p) (rejected_lines p),
      Processing_complete]"
  by (simp_all add: teardown_def Let_def close_logs_def)

text \<open>The run, for a processor whose lock is free.\<close>

lemma process_files_unfold:
  assumes "\<not> lock p"
  shows "process_files fs sched p =
     (case target fs of
        None \<Rightarrow> Some ((emit (Error_occurred Target_open_failed)
                         (p\<lparr>is_running := True, is_paused := False\<rparr>))\<lparr>is_running := False\<rparr>)
      | Some t \<Rightarrow>
          (case initialize fs t (p\<lparr>is_running := True, is_paused := False\<rparr>) of
             Inl (e, q) \<Rightarrow> Some ((emit (Error_occurred e) q)\<lparr>is_running := False\<rparr>)
           | Inr q \<Rightarrow>
               (case target_loop fs of
                  None \<Rightarrow> Some ((emit (Error_occurred Target_open_failed) q)\<lparr>is_running := False\<rparr>)
                | Some t' \<Rightarrow>
                    (case process_lines sched 0 q (readlines t') of
                       None \<Rightarrow> None
                     | Some q' \<Rightarrow> Some ((teardown q')\<lparr>is_running := False\<rparr>)))))"
proof -
  let ?p1 = "p\<lparr>is_running := True, is_paused := False\<rparr>"
  have s: "with_lock (\<lambda>p. p\<lparr>is_running := True, is_paused := False\<rparr>) p = Some ?p1"
    using assms by (simp add: with_lock_unlocked set_flag_unlocked)
  have f: "\<And>q. \<not> lock q \<Longrightarrow> with_lock (\<lambda>p. p\<lparr>is_running := False\<rparr>) q = Some (q\<lparr>is_running := False\<rparr>)"
    by (simp add: with_lock_unlocked set_flag_unlocked)
  show ?thesis
  proof (cases "target fs")
    case None
    then show ?thesis using assms by (simp add: process_files_def s try_block_def f)
  next
    case (Some t)
    note t = Some
    show ?thesis
    proof (cases "initialize fs t ?p1")
      case (Inl eq)
      obtain e q where eq: "eq = (e, q)" by (cases eq)
      have "\<not> lock q" using initialize_Inl_fields(1) [OF Inl [unfolded eq]] assms by simp
      then show ?thesis using t Inl eq by (simp add: process_files_def s try_block_def f)
    next
      case (Inr q)
      have lq: "\<not> lock q" using initialize_Inr_fields(1) [OF Inr] assms by simp
      show ?thesis
      proof (cases "target_loop fs")
        case None
        then show ?thesis using t Inr lq by (simp add: process_files_def s try_block_def f)
      next
        case (Some t')
        note t' = Some
        show ?thesis
        proof (cases "process_lines sched 0 q (readlines t')")
          case None
          then show ?thesis using t t' Inr by (simp add: process_files_def s try_block_def)
        next
          case (Some q')
          have "\<not> lock q'"
            using process_lines_lock [OF Some lq] by simp
          then show ?thesis using Some Inr t t'
            by (simp add: process_files_def s try_block_def f)
        qed
      qed
    qed
  qed
qed

lemma calls_is_paused_no_pause:
  "\<not> is_paused p \<Longrightarrow> Pause \<notin> set cs \<Longrightarrow> \<not> is_paused (calls cs p)"
proof (induction cs arbitrary: p)
  case Nil
  then show ?case by (simp add: calls_Nil)
next
  case (Cons c cs)
  have "\<not> is_paused (call c p)"
    using Cons.prems by (cases "lock p"; cases c) (simp_all add: call_locked call_unlocked)
  then show ?case using Cons by (simp add: calls_Cons)
qed

text \<open>The loop returns when the controlling thread never calls \<open>pause\<close>.\<close>

lemma process_lines_returns:
  assumes "\<not> lock p" "\<not> is_paused p" "\<And>k. Pause \<notin> set (sched k 0)"
  shows "\<exists>q. process_lines sched n p ls = Some q"
  using assms(1,2)
proof (induction ls arbitrary: n p)
  case Nil
  show ?case by simp
next
  case (Cons l ls)
  define p1 where "p1 = calls (sched (Suc n) 0) p"
  note step = process_lines_Cons [OF Cons.prems(1), of sched n l ls, folded p1_def]
  have np: "\<not> is_paused p1"
    unfolding p1_def by (rule calls_is_paused_no_pause [OF Cons.prems(2) assms(3)])
  show ?case
  proof (cases "is_running p1")
    case False
    with step show ?thesis by simp
  next
    case True
    have "\<exists>q. process_lines sched (Suc n) (process_line p1 (Suc n) l) ls = Some q"
      using Cons.prems(1) np by (intro Cons.IH) (simp_all add: p1_def)
    with step True np show ?thesis by simp
  qed
qed

lemma FileProcessor_fields [simp]:
  "lock (FileProcessor a b c) = False"
  "is_running (FileProcessor a b c) = False"
  "is_paused (FileProcessor a b c) = False"
  "total_lines (FileProcessor a b c) = 0"
  "processed_lines (FileProcessor a b c) = 0"
  "valid_lines (FileProcessor a b c) = 0"
  "rejected_lines (FileProcessor a b c) = 0"
  "existing_lines (FileProcessor a b c) = {}"
  "master_fd (FileProcessor a b c) = None"
  "log_files (FileProcessor a b c) = Map.empty"
  "emitted (FileProcessor a b c) = []"
  "logs_folder (FileProcessor a b c) = c"
  "master_file (FileProcessor a b c) = a"
  "target_file (FileProcessor a b c) = b"
  by (simp_all add: FileProcessor_def)

lemma process_files_returns:
  assumes "\<And>k. Pause \<notin> set (sched k 0)"
  shows "\<exists>q. process_files fs sched (FileProcessor a b c) = Some q"
proof -
  let ?P = "FileProcessor a b c"
  let ?P1 = "?P\<lparr>is_running := True, is_paused := False\<rparr>"
  have u: "\<not> lock ?P" by simp
  show ?thesis
  proof (cases "target fs")
    case None
    then show ?thesis by (simp add: process_files_unfold [OF u])
  next
    case (Some t)
    show ?thesis
    proof (cases "initialize fs t ?P1")
      case (Inl eq)
      then show ?thesis using Some by (cases eq) (simp add: process_files_unfold [OF u])
    next
      case (Inr p)
      note f = initialize_Inr_fields [OF Inr]
      show ?thesis
      proof (cases "target_loop fs")
        case None
        then show ?thesis using Some Inr by (simp add: process_files_unfold [OF u])
      next
        case loop: (Some t')
        have "\<exists>q. process_lines sched 0 p (readlines t') = Some q"
          by (rule process_lines_returns) (simp_all add: f assms)
        then show ?thesis using Some Inr loop by (auto simp add: process_files_unfold [OF u])
      qed
    qed
  qed
qed

lemma initialize_returns:
  "logs_creatable fs \<Longrightarrow> open_a (master fs) (master_file p) = Inr fd \<Longrightarrow>
   \<exists>q. initialize fs t p = Inr q"
  by (simp add: initialize_cases)


text \<open>
  C2, as the code has it. After every line that has been handled, and at the end of every
  run, the number of processed lines is the number of valid lines plus the number of
  rejected lines, whatever the calls of the controlling thread, a stop included. It is not
  more than the number of lines counted in the target file when the file has not more lines
  at its second opening than it had at the count. The state after \<open>k\<close> rounds is what the
  loop yields on the first \<open>k\<close> lines.
\<close>

theorem counters_invariant:
  "(process_files fs sched (FileProcessor a b c) = Some q \<longrightarrow>
      processed_lines q = valid_lines q + rejected_lines q
      \<and> (target_not_grown fs \<longrightarrow> processed_lines q \<le> total_lines q))
   \<and> (target fs = Some t \<longrightarrow> target_loop fs = Some t' \<longrightarrow>
      initialize fs t ((FileProcessor a b c)\<lparr>is_running := True, is_paused := False\<rparr>) = Inr p0 \<longrightarrow>
      process_lines sched 0 p0 (take k (readlines t')) = Some q' \<longrightarrow>
      processed_lines q' = valid_lines q' + rejected_lines q'
      \<and> total_lines q' = length (readlines t)
      \<and> (target_not_grown fs \<longrightarrow> processed_lines q' \<le> total_lines q'))"
proof -
  let ?P = "FileProcessor a b c"
  let ?P1 = "?P\<lparr>is_running := True, is_paused := False\<rparr>"
  have z: "\<not> lock ?P" "processed_lines ?P1 = 0" "valid_lines ?P1 = 0" "rejected_lines ?P1 = 0"
    "total_lines ?P1 = 0" "\<not> lock ?P1"
    by (simp_all add: FileProcessor_def)
  have loop: "processed_lines r = valid_lines r + rejected_lines r
      \<and> total_lines r = length (readlines u)
      \<and> (length ls \<le> length (readlines u) \<longrightarrow> processed_lines r \<le> total_lines r)"
    if i: "initialize fs u ?P1 = Inr p" and r: "process_lines sched 0 p ls = Some r"
    for u p ls r
  proof -
    note f = initialize_Inr_fields [OF i]
    have "processed_lines r = valid_lines r + rejected_lines r
         \<and> processed_lines r \<le> 0 + length ls \<and> total_lines r = total_lines p \<and> \<not> lock r"
      by (rule process_lines_invariant [OF r]) (simp_all add: f z)
    then show ?thesis by (simp add: f)
  qed
  have A: "processed_lines q = valid_lines q + rejected_lines q
      \<and> (target_not_grown fs \<longrightarrow> processed_lines q \<le> total_lines q)"
    if run: "process_files fs sched ?P = Some q"
  proof (cases "target fs")
    case None
    then show ?thesis using run by (auto simp add: process_files_unfold [OF z(1)] z)
  next
    case (Some u)
    note u = Some
    show ?thesis
    proof (cases "initialize fs u ?P1")
      case (Inl eq)
      obtain e p where eq: "eq = (e, p)" by (cases eq)
      note f = initialize_Inl_fields [OF Inl [unfolded eq]]
      show ?thesis using run u Inl eq
        by (auto simp add: process_files_unfold [OF z(1)] f z)
    next
      case (Inr p)
      note f = initialize_Inr_fields [OF Inr]
      show ?thesis
      proof (cases "target_loop fs")
        case None
        then show ?thesis using run u Inr
          by (auto simp add: process_files_unfold [OF z(1)] f z)
      next
        case (Some u')
        from run u Inr Some obtain r where r: "process_lines sched 0 p (readlines u') = Some r"
          and q: "q = (teardown r)\<lparr>is_running := False\<rparr>"
          by (auto simp add: process_files_unfold [OF z(1)] split: option.splits)
        have g: "target_not_grown fs = (length (readlines u') \<le> length (readlines u))"
          by (simp add: target_not_grown_def u Some)
        from loop [OF Inr r] show ?thesis by (auto simp add: q g)
      qed
    qed
  qed
  have B: "processed_lines q' = valid_lines q' + rejected_lines q'
      \<and> total_lines q' = length (readlines t)
      \<and> (target_not_grown fs \<longrightarrow> processed_lines q' \<le> total_lines q')"
    if t: "target fs = Some t" and t': "target_loop fs = Some t'"
      and i: "initialize fs t ?P1 = Inr p0"
      and r: "process_lines sched 0 p0 (take k (readlines t')) = Some q'"
  proof -
    have g: "target_not_grown fs = (length (readlines t') \<le> length (readlines t))"
      by (simp add: target_not_grown_def t t')
    from loop [OF i r] show ?thesis by (auto simp add: g)
  qed
  from A B show ?thesis by blast
qed

theorem counters_invariant_witness:
  "target_not_grown example_fs
   \<and> (\<exists>q. process_files example_fs (stop_at 3) example_processor = Some q
      \<and> processed_lines q = valid_lines q + rejected_lines q
      \<and> processed_lines q \<le> total_lines q)
   \<and> (\<exists>p0 q'. target example_fs = Some example_target
      \<and> target_loop example_fs = Some example_target
      \<and> initialize example_fs example_target
           (example_processor\<lparr>is_running := True, is_paused := False\<rparr>) = Inr p0
      \<and> process_lines (stop_at 3) 0 p0 (take 4 (readlines example_target)) = Some q'
      \<and> processed_lines q' = valid_lines q' + rejected_lines q'
      \<and> processed_lines q' \<le> total_lines q')"
proof -
  have np: "\<And>k. Pause \<notin> set (stop_at 3 k 0)" by (simp add: stop_at_def)
  obtain q where q: "process_files example_fs (stop_at 3) example_processor = Some q"
    unfolding example_processor_def
    using process_files_returns [of "stop_at 3" example_fs] np by blast
  have t: "target example_fs = Some example_target" by (simp add: example_fs_def)
  have t': "target_loop example_fs = Some example_target" by (simp add: example_fs_def)
  have g: "target_not_grown example_fs" by (simp add: target_not_grown_def t t')
  have "\<exists>p0. initialize example_fs example_target
           (example_processor\<lparr>is_running := True, is_paused := False\<rparr>) = Inr p0"
    by (simp add: initialize_cases example_fs_def example_processor_def open_a_def)
  then obtain p0 where p0: "initialize example_fs example_target
           (example_processor\<lparr>is_running := True, is_paused := False\<rparr>) = Inr p0"
    by blast
  note f = initialize_Inr_fields [OF p0]
  have "\<exists>q'. process_lines (stop_at 3) 0 p0 (take 4 (readlines example_target)) = Some q'"
    by (rule process_lines_returns) (simp_all add: f example_processor_def np)
  then obtain q' where
    q': "process_lines (stop_at 3) 0 p0 (take 4 (readlines example_target)) = Some q'"
    by blast
  show ?thesis
    using counters_invariant [of example_fs "stop_at 3" "str ''master.txt''" "str ''target.txt''"
        "str ''Logs''" q example_target example_target p0 4 q'] q t t' g p0 q'
    unfolding example_processor_def by blast
qed

section \<open>What the loop writes\<close>

lemma file_write_Nil [simp]: "file_write f [] = f"
  by (simp add: file_write_def)

lemma file_write_write: "file_write (file_write f a) b = file_write f (a @ b)"
  by (simp add: file_write_def)

lemma records_text_Nil [simp]: "records_text [] = []"
  by (simp add: records_text_def)

lemma records_text_Cons: "records_text (r # rs) = r @ [LF] @ records_text rs"
  by (simp add: records_text_def)

lemma records_text_append: "records_text (xs @ ys) = records_text xs @ records_text ys"
  by (simp add: records_text_def)

lemma handle_lines_master_fd:
  "master_fd (handle_lines n p ls) =
     map_option (\<lambda>f. file_write f (records_text (accepted (existing_lines p) ls))) (master_fd p)"
proof (induction ls arbitrary: n p)
  case Nil
  show ?case by (simp add: option.map_ident)
next
  case (Cons l ls)
  show ?case
    by (simp add: Cons.IH process_line_existing_lines process_line_master_fd
        option.map_comp comp_def file_write_write records_text_Cons insert_absorb)
qed

lemma handle_lines_valid_lines:
  "valid_lines (handle_lines n p ls) = valid_lines p + length (accepted (existing_lines p) ls)"
  by (induction ls arbitrary: n p)
     (simp_all add: process_line_existing_lines process_line_valid_lines insert_absorb)

lemma handle_lines_existing_lines:
  "existing_lines (handle_lines n p ls) =
     existing_lines p \<union> strip ` {l \<in> set ls. fst (validate_line l 0)}"
  by (induction ls arbitrary: n p) (auto simp add: process_line_existing_lines)

lemma set_accepted:
  "set (accepted idx ls) = strip ` {l \<in> set ls. fst (validate_line l 0)} - idx"
  by (induction ls arbitrary: idx) auto

lemma distinct_accepted: "distinct (accepted idx ls)"
  by (induction ls arbitrary: idx) (auto simp add: set_accepted)

lemma handle_lines_rejected_lines:
  "rejected_lines (handle_lines n p ls) + length (accepted (existing_lines p) ls)
     = rejected_lines p + length ls"
  using handle_lines_counters [of n p ls] handle_lines_valid_lines [of n p ls] by simp

text \<open>A quiet start of the schedule lets the first lines be handled.\<close>

lemma process_lines_append_quiet:
  assumes "\<not> lock p" "is_running p" "\<not> is_paused p"
    and "\<And>k. n < k \<Longrightarrow> k \<le> n + length xs \<Longrightarrow> sched k 0 = []"
  shows "process_lines sched n p (xs @ ys)
           = process_lines sched (n + length xs) (handle_lines n p xs) ys"
  using assms
proof (induction xs arbitrary: n p)
  case Nil
  show ?case by simp
next
  case (Cons l ls)
  have q: "sched (Suc n) 0 = []" using Cons.prems(4) [of "Suc n"] by simp
  have "process_lines sched n p ((l # ls) @ ys)
      = process_lines sched (Suc n) (process_line p (Suc n) l) (ls @ ys)"
    using Cons.prems(2,3)
    by (simp only: append_Cons process_lines_Cons [OF Cons.prems(1)] q calls_Nil if_False simp_thms)
  also have "\<dots> = process_lines sched (Suc n + length ls)
       (handle_lines (Suc n) (process_line p (Suc n) l) ls) ys"
    using Cons.prems by (intro Cons.IH) simp_all
  finally show ?case by simp
qed

lemma initialize_master_fd:
  assumes "initialize fs t p = Inr q"
  shows "master_fd q = Some \<lparr>path = master_file p,
           content = (case master fs of Absent cr \<Rightarrow> [] | Present m w \<Rightarrow> m), closed = False\<rparr>"
  using assms
  by (auto simp add: initialize_cases open_a_def split: if_splits sum.splits master_state.splits)

lemma calls_stop:
  "\<not> lock p \<Longrightarrow> Stop \<in> set cs \<Longrightarrow> \<not> is_running (calls cs p)"
  by (simp add: calls_is_running)

lemma process_files_stop:
  assumes t1: "target fs = Some t1"
    and i: "initialize fs t1 ((FileProcessor a b c)\<lparr>is_running := True, is_paused := False\<rparr>) = Inr p0"
    and t: "target_loop fs = Some t"
    and n: "N < length (readlines t)"
    and quiet: "\<forall>k\<le>N. sched k 0 = []"
    and stop: "Stop \<in> set (sched (Suc N) 0)"
  shows "\<exists>q. process_files fs sched (FileProcessor a b c) = Some q
     \<and> q = (teardown (calls (sched (Suc N) 0) (handle_lines 0 p0 (take N (readlines t)))))
             \<lparr>is_running := False\<rparr>
     \<and> processed_lines q = N
     \<and> valid_lines q = length (accepted (preload (master fs)) (take N (readlines t)))
     \<and> valid_lines q + rejected_lines q = N
     \<and> master_fd q = Some \<lparr>path = a,
          content = (case master fs of Absent cr \<Rightarrow> [] | Present m w \<Rightarrow> m)
                    @ records_text (accepted (preload (master fs)) (take N (readlines t))),
          closed = True\<rparr>
     \<and> log_files q = map_option file_close \<circ> log_files (handle_lines 0 p0 (take N (readlines t)))
     \<and> emitted q = emitted (handle_lines 0 p0 (take N (readlines t)))
          @ [Update_progress (length (readlines t1)) N (valid_lines q) (rejected_lines q),
             Processing_complete]
     \<and> \<not> is_running q"
proof -
  let ?P = "FileProcessor a b c"
  let ?ls = "readlines t"
  let ?h = "handle_lines 0 p0 (take N ?ls)"
  let ?s = "calls (sched (Suc N) 0) ?h"
  note f = initialize_Inr_fields [OF i]
  have u: "\<not> lock ?P" by simp
  have flags: "\<not> lock p0" "is_running p0" "\<not> is_paused p0"
    by (simp_all add: f)
  obtain l rest where d: "drop N ?ls = l # rest"
    using n by (cases "drop N ?ls") simp_all
  have len: "length (take N ?ls) = N" using n by simp
  have "process_lines sched 0 p0 ?ls = process_lines sched 0 p0 (take N ?ls @ drop N ?ls)"
    by simp
  also have "\<dots> = process_lines sched (0 + length (take N ?ls)) ?h (drop N ?ls)"
    using flags quiet len by (intro process_lines_append_quiet) simp_all
  also have "\<dots> = process_lines sched N ?h (l # rest)"
    by (simp only: len d add_0)
  also have "\<dots> = Some ?s"
  proof -
    have ul: "\<not> lock ?h" using flags by simp
    have "\<not> is_running ?s" by (rule calls_stop [OF ul stop])
    then show ?thesis by (simp only: process_lines_Cons [OF ul] if_True simp_thms)
  qed
  finally have loop: "process_lines sched 0 p0 ?ls = Some ?s" .
  let ?q = "(teardown ?s)\<lparr>is_running := False\<rparr>"
  have run: "process_files fs sched ?P = Some ?q"
    by (simp add: process_files_unfold [OF u] t1 t i loop)
  have pl: "processed_lines ?q = N"
    using n by (auto simp add: handle_lines_processed f)
  have vl: "valid_lines ?q = length (accepted (preload (master fs)) (take N ?ls))"
    by (simp add: handle_lines_valid_lines f)
  have sum: "valid_lines ?q + rejected_lines ?q = N"
    using handle_lines_counters [of 0 p0 "take N ?ls"] len by (simp add: f)
  have m: "master_fd ?q = Some \<lparr>path = a,
          content = (case master fs of Absent cr \<Rightarrow> [] | Present m w \<Rightarrow> m)
                    @ records_text (accepted (preload (master fs)) (take N ?ls)),
          closed = True\<rparr>"
    by (simp add: handle_lines_master_fd f initialize_master_fd [OF i] file_write_def file_close_def)
  have lg: "log_files ?q = map_option file_close \<circ> log_files ?h"
    by (simp add: comp_def)
  have em: "emitted ?q = emitted ?h
          @ [Update_progress (length (readlines t1)) N (valid_lines ?q) (rejected_lines ?q),
             Processing_complete]"
    using pl by (simp add: f)
  have "\<not> is_running ?q" by simp
  with run pl vl sum m lg em show ?thesis by blast
qed

text \<open>
  The call of \<open>stop\<close> with the worker not paused: the rounds for the first \<open>N\<close> lines find
  neither flag changed, and \<open>stop\<close> is called before the round for the next line.
\<close>

lemma calls_is_paused:
  "\<not> lock p \<Longrightarrow> is_paused (calls cs p) = paused_after cs (is_paused p)"
proof (induction cs arbitrary: p)
  case Nil
  then show ?case by (simp add: calls_Nil)
next
  case (Cons c cs)
  have u: "\<not> lock (call c p)" using Cons.prems by (cases c) (simp_all add: call_unlocked)
  show ?case
    using Cons.IH [OF u] Cons.prems by (cases c) (simp_all add: calls_Cons call_unlocked)
qed

lemma calls_unchanged:
  assumes "\<not> lock p" "\<not> is_paused p" "Stop \<notin> set cs" "\<not> paused_after cs False"
  shows "calls cs p = p"
proof -
  have "calls cs p = p\<lparr>is_running := is_running p \<and> Stop \<notin> set cs,
                       is_paused := is_paused (calls cs p)\<rparr>"
    by (rule calls_flags [OF assms(1)])
  also have "\<dots> = p\<lparr>is_running := is_running p, is_paused := is_paused p\<rparr>"
    using assms by (simp add: calls_is_paused)
  finally show ?thesis by simp
qed

lemma process_lines_append_unpaused:
  assumes "\<not> lock p" "is_running p" "\<not> is_paused p"
    and "\<And>k. n < k \<Longrightarrow> k \<le> n + length xs \<Longrightarrow>
           Stop \<notin> set (sched k 0) \<and> \<not> paused_after (sched k 0) False"
  shows "process_lines sched n p (xs @ ys)
           = process_lines sched (n + length xs) (handle_lines n p xs) ys"
  using assms
proof (induction xs arbitrary: n p)
  case Nil
  show ?case by simp
next
  case (Cons l ls)
  have "Stop \<notin> set (sched (Suc n) 0) \<and> \<not> paused_after (sched (Suc n) 0) False"
    using Cons.prems(4) [of "Suc n"] by simp
  then have q: "calls (sched (Suc n) 0) p = p"
    using Cons.prems(1,3) by (simp add: calls_unchanged)
  have "process_lines sched n p ((l # ls) @ ys)
      = process_lines sched (Suc n) (process_line p (Suc n) l) (ls @ ys)"
    using Cons.prems(2,3)
    by (simp only: append_Cons process_lines_Cons [OF Cons.prems(1)] q if_False simp_thms)
  also have "\<dots> = process_lines sched (Suc n + length ls)
       (handle_lines (Suc n) (process_line p (Suc n) l) ls) ys"
    using Cons.prems by (intro Cons.IH) simp_all
  finally show ?case by simp
qed

lemma process_files_stop_unpaused:
  assumes t1: "target fs = Some t1"
    and i: "initialize fs t1 ((FileProcessor a b c)\<lparr>is_running := True, is_paused := False\<rparr>) = Inr p0"
    and t: "target_loop fs = Some t"
    and n: "N < length (readlines t)"
    and before: "\<And>k. 0 < k \<Longrightarrow> k \<le> N \<Longrightarrow>
                   Stop \<notin> set (sched k 0) \<and> \<not> paused_after (sched k 0) False"
    and stop: "Stop \<in> set (sched (Suc N) 0)"
  shows "\<exists>q. process_files fs sched (FileProcessor a b c) = Some q
     \<and> processed_lines q = N
     \<and> valid_lines q = length (accepted (preload (master fs)) (take N (readlines t)))
     \<and> valid_lines q + rejected_lines q = N
     \<and> master_fd q = Some \<lparr>path = a,
          content = (case master fs of Absent cr \<Rightarrow> [] | Present m w \<Rightarrow> m)
                    @ records_text (accepted (preload (master fs)) (take N (readlines t))),
          closed = True\<rparr>
     \<and> log_files q = map_option file_close \<circ> log_files (handle_lines 0 p0 (take N (readlines t)))
     \<and> emitted q = emitted (handle_lines 0 p0 (take N (readlines t)))
          @ [Update_progress (length (readlines t1)) N (valid_lines q) (rejected_lines q),
             Processing_complete]
     \<and> \<not> is_running q"
proof -
  let ?P = "FileProcessor a b c"
  let ?ls = "readlines t"
  let ?h = "handle_lines 0 p0 (take N ?ls)"
  let ?s = "calls (sched (Suc N) 0) ?h"
  note f = initialize_Inr_fields [OF i]
  have u: "\<not> lock ?P" by simp
  have flags: "\<not> lock p0" "is_running p0" "\<not> is_paused p0"
    by (simp_all add: f)
  obtain l rest where d: "drop N ?ls = l # rest"
    using n by (cases "drop N ?ls") simp_all
  have len: "length (take N ?ls) = N" using n by simp
  have "process_lines sched 0 p0 ?ls = process_lines sched 0 p0 (take N ?ls @ drop N ?ls)"
    by simp
  also have "\<dots> = process_lines sched (0 + length (take N ?ls)) ?h (drop N ?ls)"
    using flags before len by (intro process_lines_append_unpaused) simp_all
  also have "\<dots> = process_lines sched N ?h (l # rest)"
    by (simp only: len d add_0)
  also have "\<dots> = Some ?s"
  proof -
    have ul: "\<not> lock ?h" using flags by simp
    have "\<not> is_running ?s" by (rule calls_stop [OF ul stop])
    then show ?thesis by (simp only: process_lines_Cons [OF ul] if_True simp_thms)
  qed
  finally have loop: "process_lines sched 0 p0 ?ls = Some ?s" .
  let ?q = "(teardown ?s)\<lparr>is_running := False\<rparr>"
  have run: "process_files fs sched ?P = Some ?q"
    by (simp add: process_files_unfold [OF u] t1 t i loop)
  have pl: "processed_lines ?q = N"
    using n by (auto simp add: handle_lines_processed f)
  have vl: "valid_lines ?q = length (accepted (preload (master fs)) (take N ?ls))"
    by (simp add: handle_lines_valid_lines f)
  have sum: "valid_lines ?q + rejected_lines ?q = N"
    using handle_lines_counters [of 0 p0 "take N ?ls"] len by (simp add: f)
  have m: "master_fd ?q = Some \<lparr>path = a,
          content = (case master fs of Absent cr \<Rightarrow> [] | Present m w \<Rightarrow> m)
                    @ records_text (accepted (preload (master fs)) (take N ?ls)),
          closed = True\<rparr>"
    by (simp add: handle_lines_master_fd f initialize_master_fd [OF i] file_write_def file_close_def)
  have lg: "log_files ?q = map_option file_close \<circ> log_files ?h"
    by (simp add: comp_def)
  have em: "emitted ?q = emitted ?h
          @ [Update_progress (length (readlines t1)) N (valid_lines ?q) (rejected_lines ?q),
             Processing_complete]"
    using pl by (simp add: f)
  have "\<not> is_running ?q" by simp
  with run pl vl sum m lg em show ?thesis by blast
qed

text \<open>
  A round that finds the worker paused is never left, whatever is called during its
  sleeps.
\<close>

lemma process_lines_paused:
  assumes "\<not> lock p"
    and "Stop \<notin> set (sched (Suc n) 0)" "is_running p" "paused_after (sched (Suc n) 0) (is_paused p)"
  shows "process_lines sched n p (l # ls) = None"
proof -
  have r: "is_running (calls (sched (Suc n) 0) p)"
    using assms by (simp add: calls_is_running)
  have s: "is_paused (calls (sched (Suc n) 0) p)"
    using assms by (simp add: calls_is_paused)
  show ?thesis by (simp only: process_lines_Cons [OF assms(1)]) (simp add: r s)
qed

lemma process_files_paused:
  assumes t1: "target fs = Some t1"
    and i: "initialize fs t1 ((FileProcessor a b c)\<lparr>is_running := True, is_paused := False\<rparr>) = Inr p0"
    and t: "target_loop fs = Some t"
    and n: "N < length (readlines t)"
    and before: "\<And>k. 0 < k \<Longrightarrow> k \<le> N \<Longrightarrow>
                   Stop \<notin> set (sched k 0) \<and> \<not> paused_after (sched k 0) False"
    and pause: "Stop \<notin> set (sched (Suc N) 0)" "paused_after (sched (Suc N) 0) False"
  shows "process_files fs sched (FileProcessor a b c) = None"
proof -
  let ?P = "FileProcessor a b c"
  let ?ls = "readlines t"
  let ?h = "handle_lines 0 p0 (take N ?ls)"
  note f = initialize_Inr_fields [OF i]
  have u: "\<not> lock ?P" by simp
  have flags: "\<not> lock p0" "is_running p0" "\<not> is_paused p0"
    by (simp_all add: f)
  obtain l rest where d: "drop N ?ls = l # rest"
    using n by (cases "drop N ?ls") simp_all
  have len: "length (take N ?ls) = N" using n by simp
  have "process_lines sched 0 p0 ?ls = process_lines sched 0 p0 (take N ?ls @ drop N ?ls)"
    by simp
  also have "\<dots> = process_lines sched (0 + length (take N ?ls)) ?h (drop N ?ls)"
    using flags before len by (intro process_lines_append_unpaused) simp_all
  also have "\<dots> = process_lines sched N ?h (l # rest)"
    by (simp only: len d add_0)
  also have "\<dots> = None"
    using flags pause by (intro process_lines_paused) simp_all
  finally have loop: "process_lines sched 0 p0 ?ls = None" .
  show ?thesis by (simp add: process_files_unfold [OF u] t1 t i loop)
qed

lemma readlines_example:
  "readlines example_target =
     [str ''alice:http://x.com:pw1'' @ [LF], str ''  a:b  '' @ [LF], [LF],
      str ''alice:http://x.com:pw1'' @ [LF], str ''u:v:w'']"
  by (simp add: example_target_def str_def LF_def)

lemma preload_example: "preload (master example_fs) = {str ''x:y:z''}"
  by (simp add: example_fs_def preload_def string_eval)

lemma accepted_example:
  "accepted {str ''x:y:z''} (take 2 (readlines example_target)) = [str ''alice:http://x.com:pw1'']"
  by (simp add: readlines_example validate_line_def string_eval numeral_2_eq_2)

section \<open>Runs without calls\<close>

lemma process_files_no_calls:
  assumes "target fs = Some t1"
    and "initialize fs t1 ((FileProcessor a b c)\<lparr>is_running := True, is_paused := False\<rparr>) = Inr p0"
    and "target_loop fs = Some t"
  shows "process_files fs no_calls (FileProcessor a b c)
           = Some ((teardown (handle_lines 0 p0 (readlines t)))\<lparr>is_running := False\<rparr>)"
proof -
  note f = initialize_Inr_fields [OF assms(2)]
  have u: "\<not> lock (FileProcessor a b c)" by simp
  have "process_lines no_calls 0 p0 (readlines t) = Some (handle_lines 0 p0 (readlines t))"
    by (rule process_lines_no_calls) (simp_all add: f)
  then show ?thesis by (simp add: process_files_unfold [OF u] assms)
qed

text \<open>
  A target file that holds two lines when its lines are counted and five when it is opened
  for the loop: the run handles the five lines, and the total stays at two, so the lines
  handled are more than the total.
\<close>

theorem counters_invariant_counterexample:
  "map_option processed_lines (process_files example_fs_grown no_calls example_processor) = Some 5
   \<and> map_option total_lines (process_files example_fs_grown no_calls example_processor) = Some 2
   \<and> map_option (\<lambda>q. processed_lines q \<le> total_lines q)
        (process_files example_fs_grown no_calls example_processor) = Some False"
proof -
  let ?P = "FileProcessor (str ''master.txt'') (str ''target.txt'') (str ''Logs'')"
  let ?t1 = "str ''alice:http://x.com:pw1'' @ [LF] @ str ''  a:b  '' @ [LF]"
  have t1: "target example_fs_grown = Some ?t1" by (simp add: example_fs_grown_def)
  have t: "target_loop example_fs_grown = Some example_target"
    by (simp add: example_fs_grown_def example_fs_def)
  have "\<exists>p0. initialize example_fs_grown ?t1 (?P\<lparr>is_running := True, is_paused := False\<rparr>) = Inr p0"
    by (simp add: initialize_cases example_fs_grown_def example_fs_def open_a_def)
  then obtain p0 where
    p0: "initialize example_fs_grown ?t1 (?P\<lparr>is_running := True, is_paused := False\<rparr>) = Inr p0"
    by blast
  note f = initialize_Inr_fields [OF p0]
  have run: "process_files example_fs_grown no_calls example_processor
      = Some ((teardown (handle_lines 0 p0 (readlines example_target)))\<lparr>is_running := False\<rparr>)"
    unfolding example_processor_def by (rule process_files_no_calls [OF t1 p0 t])
  have l5: "length (readlines example_target) = 5" by (simp add: readlines_example)
  have ne: "readlines example_target \<noteq> []" using l5 by auto
  have pr: "processed_lines
      ((teardown (handle_lines 0 p0 (readlines example_target)))\<lparr>is_running := False\<rparr>) = 5"
    by (simp add: handle_lines_processed ne l5)
  have tl: "total_lines
      ((teardown (handle_lines 0 p0 (readlines example_target)))\<lparr>is_running := False\<rparr>) = 2"
    by (simp add: f) (simp add: str_def LF_def)
  show ?thesis by (simp only: run option.map pr tl) simp
qed

lemma handle_lines_snoc:
  "handle_lines n p (xs @ [x]) = process_line (handle_lines n p xs) (Suc (n + length xs)) x"
  by (simp add: handle_lines_append)

lemma handle_lines_emitted:
  "emitted (handle_lines n p ls) =
     emitted p @
     concat (map (\<lambda>k. if (n + k) mod 100 = 0 \<or> n + k = total_lines p
                        then [Update_progress (total_lines p) (n + k)
                                (valid_lines (handle_lines n p (take k ls)))
                                (rejected_lines (handle_lines n p (take k ls)))]
                        else [])
                 [1..<Suc (length ls)])"
proof (induction ls rule: rev_induct)
  case Nil
  show ?case by simp
next
  case (snoc x xs)
  let ?g = "\<lambda>ls k. if (n + k) mod 100 = 0 \<or> n + k = total_lines p
                        then [Update_progress (total_lines p) (n + k)
                                (valid_lines (handle_lines n p (take k ls)))
                                (rejected_lines (handle_lines n p (take k ls)))]
                        else []"
  have same: "map (?g (xs @ [x])) [1..<Suc (length xs)] = map (?g xs) [1..<Suc (length xs)]"
  proof (rule map_cong [OF refl])
    fix k assume "k \<in> set [1..<Suc (length xs)]"
    then have "k \<le> length xs" by (simp del: upt_Suc)
    then show "?g (xs @ [x]) k = ?g xs k" by simp
  qed
  have "emitted (handle_lines n p (xs @ [x]))
      = emitted (handle_lines n p xs) @ ?g (xs @ [x]) (Suc (length xs))"
    by (simp add: handle_lines_snoc process_line_emitted)
  also have "\<dots> = emitted p @ concat (map (?g xs) [1..<Suc (length xs)])
       @ ?g (xs @ [x]) (Suc (length xs))"
    by (simp add: snoc.IH)
  also have "\<dots> = emitted p @ concat (map (?g (xs @ [x])) [1..<Suc (length (xs @ [x]))])"
  proof -
    have up: "[1..<Suc (length (xs @ [x]))] = [1..<Suc (length xs)] @ [Suc (length xs)]"
      by (simp del: upt_Suc add: upt_Suc_append)
    have "concat (map (?g (xs @ [x])) [1..<Suc (length (xs @ [x]))])
        = concat (map (?g (xs @ [x])) [1..<Suc (length xs)]) @ ?g (xs @ [x]) (Suc (length xs))"
      by (simp only: up map_append concat_append list.map concat.simps append_Nil2)
    then show ?thesis by (simp only: same)
  qed
  finally show ?case .
qed

text \<open>
  C9. A round of the loop emits a progress signal exactly when the number of the line is a
  multiple of 100 or is the number of lines counted in the target file, and the signal
  carries the total and the counters as they are after the line. So the signals of a loop
  that handles all its lines are those of the lines with such a number, in order. Every run
  that ends by completion or by a stop emits, after the loop and before the completion
  signal, one more progress signal with the final counters, whatever the number of
  processed lines is.
\<close>

theorem progress_snapshots:
  "emitted (process_line p n l) =
     emitted p @
       (if n mod 100 = 0 \<or> n = total_lines p
        then [Update_progress (total_lines (process_line p n l))
                (processed_lines (process_line p n l))
                (valid_lines (process_line p n l)) (rejected_lines (process_line p n l))]
        else [])
   \<and> emitted (handle_lines 0 p ls) =
       emitted p @
       concat (map (\<lambda>k. if k mod 100 = 0 \<or> k = total_lines p
                          then [Update_progress (total_lines p) k
                                  (valid_lines (handle_lines 0 p (take k ls)))
                                  (rejected_lines (handle_lines 0 p (take k ls)))]
                          else [])
                   [1..<Suc (length ls)])
   \<and> (target fs = Some t \<longrightarrow>
        initialize fs t ((FileProcessor a b c)\<lparr>is_running := True, is_paused := False\<rparr>) = Inr p0 \<longrightarrow>
        target_loop fs = Some t' \<longrightarrow>
        process_files fs sched (FileProcessor a b c) = Some q \<longrightarrow>
        (\<exists>es. emitted q =
           es @ [Update_progress (total_lines q) (processed_lines q) (valid_lines q)
                   (rejected_lines q),
                 Processing_complete]))"
proof -
  have A: "emitted (process_line p n l) =
     emitted p @
       (if n mod 100 = 0 \<or> n = total_lines p
        then [Update_progress (total_lines (process_line p n l))
                (processed_lines (process_line p n l))
                (valid_lines (process_line p n l)) (rejected_lines (process_line p n l))]
        else [])"
    by (simp add: process_line_emitted)
  have B: "emitted (handle_lines 0 p ls) =
       emitted p @
       concat (map (\<lambda>k. if k mod 100 = 0 \<or> k = total_lines p
                          then [Update_progress (total_lines p) k
                                  (valid_lines (handle_lines 0 p (take k ls)))
                                  (rejected_lines (handle_lines 0 p (take k ls)))]
                          else [])
                   [1..<Suc (length ls)])"
    using handle_lines_emitted [of 0 p ls] by (simp only: add_0)
  have C: "\<exists>es. emitted q =
           es @ [Update_progress (total_lines q) (processed_lines q) (valid_lines q)
                   (rejected_lines q),
                 Processing_complete]"
    if t: "target fs = Some t"
      and i: "initialize fs t ((FileProcessor a b c)\<lparr>is_running := True, is_paused := False\<rparr>) = Inr p0"
      and t': "target_loop fs = Some t'"
      and r: "process_files fs sched (FileProcessor a b c) = Some q"
  proof -
    have u: "\<not> lock (FileProcessor a b c)" by simp
    from r obtain q' where "q = (teardown q')\<lparr>is_running := False\<rparr>"
      by (auto simp add: process_files_unfold [OF u] t i t' split: option.splits)
    then show ?thesis by simp
  qed
  from A B C show ?thesis by blast
qed

theorem progress_snapshots_witness:
  "\<exists>q es. process_files example_fs (stop_at 3) example_processor = Some q
     \<and> processed_lines q = 2 \<and> total_lines q = 5
     \<and> emitted q = es @ [Update_progress (total_lines q) (processed_lines q) (valid_lines q)
                           (rejected_lines q), Processing_complete]"
proof -
  have t: "target example_fs = Some example_target" by (simp add: example_fs_def)
  have "\<exists>p0. initialize example_fs example_target
           (example_processor\<lparr>is_running := True, is_paused := False\<rparr>) = Inr p0"
    by (simp add: initialize_cases example_fs_def example_processor_def open_a_def)
  then obtain p0 where p0: "initialize example_fs example_target
       ((FileProcessor (str ''master.txt'') (str ''target.txt'') (str ''Logs''))
          \<lparr>is_running := True, is_paused := False\<rparr>) = Inr p0"
    unfolding example_processor_def by blast
  have t': "target_loop example_fs = Some example_target" by (simp add: example_fs_def)
  have n: "2 < length (readlines example_target)" by (simp add: readlines_example)
  have quiet: "\<forall>k\<le>2. stop_at 3 k 0 = []" by (simp add: stop_at_def)
  have stop: "Stop \<in> set (stop_at 3 (Suc 2) 0)" by (simp add: stop_at_def)
  from process_files_stop [where sched = "stop_at 3", OF t p0 t' n quiet stop]
  obtain q where q: "process_files example_fs (stop_at 3)
        (FileProcessor (str ''master.txt'') (str ''target.txt'') (str ''Logs'')) = Some q"
    and pl: "processed_lines q = 2"
    and tq: "q = (teardown (calls (stop_at 3 (Suc 2) 0)
                (handle_lines 0 p0 (take 2 (readlines example_target)))))\<lparr>is_running := False\<rparr>"
    by blast
  have tl: "total_lines q = 5"
    by (simp add: tq initialize_Inr_fields [OF p0] readlines_example)
  from progress_snapshots [where sched = "stop_at 3" and p = p0 and n = 0 and l = "[]" and ls = "[]", THEN conjunct2, THEN conjunct2, rule_format, OF t p0 t' q]
  show ?thesis using q pl tl unfolding example_processor_def by blast
qed

section \<open>The duplicate check\<close>

lemma handle_lines_index_grows: "existing_lines p \<subseteq> existing_lines (handle_lines n p ls)"
  by (simp add: handle_lines_existing_lines)

lemma preload_cases:
  "preload m = (case m of Absent cr \<Rightarrow> {} | Present t w \<Rightarrow> set (map strip (readlines t)))"
  by (simp add: preload_def)

lemma log_rejection_dom: "dom (log_files (log_rejection p r n c)) = dom (log_files p)"
  by (auto simp add: log_rejection_log_files split: option.splits)

lemma process_line_dom: "dom (log_files (process_line p n l)) = dom (log_files p)"
  by (simp add: process_line_log_files log_rejection_dom)

lemma handle_lines_dom: "dom (log_files (handle_lines n p ls)) = dom (log_files p)"
  by (induction ls arbitrary: n p) (simp_all add: process_line_dom)

lemma initialize_dom:
  "initialize fs t p = Inr q \<Longrightarrow> dom (log_files q) = dom (log_files p) \<union> set log_reasons"
  by (auto simp add: initialize_Inr_fields(11) initialize_logs_eq log_reasons_def)

lemma example_initialize:
  "\<exists>p0. initialize example_fs example_target
     ((FileProcessor (str ''master.txt'') (str ''target.txt'') (str ''Logs''))
        \<lparr>is_running := True, is_paused := False\<rparr>) = Inr p0"
  by (simp add: initialize_cases example_fs_def open_a_def)

lemma validate_example: "fst (validate_line (str ''alice:http://x.com:pw1'' @ [LF]) n)"
  by (simp add: validate_line_def string_eval numeral_2_eq_2)

lemma strip_example:
  "strip (str ''alice:http://x.com:pw1'' @ [LF]) = str ''alice:http://x.com:pw1''"
  by (simp add: string_eval)

lemma process_line_Duplicate_log:
  "log_files (process_line p n l) (str ''Duplicate'') =
     (if fst (validate_line l 0) \<and> strip l \<in> existing_lines p
      then map_option (\<lambda>f. file_write f (log_entry n (strip l))) (log_files p (str ''Duplicate''))
      else log_files p (str ''Duplicate''))"
proof -
  have r: "fst (snd (validate_line l 0)) \<noteq> str ''Duplicate''" if "\<not> fst (validate_line l 0)"
    using that by (auto simp add: validate_line_def Let_def str_def split: if_splits)
  show ?thesis
    using r by (auto simp add: process_line_log_files log_rejection_log_files split: option.splits)
qed

lemma handle_lines_master_content:
  "master_fd p = Some fd \<Longrightarrow>
   master_fd (handle_lines n p ls)
     = Some (fd\<lparr>content := content fd @ records_text (accepted (existing_lines p) ls)\<rparr>)"
  by (simp add: handle_lines_master_fd file_write_def)

text \<open>
  C3. The index of the loop is seeded with the stripped lines of the master file; the
  master file is open for appending, holding the text it had, and the log file of the
  duplicates is open and empty. A valid line whose record is in the index is rejected: the
  entry \<^verbatim>\<open>Line n: record\<close> and a line end are added to the text of the log file of the
  duplicates, the rejected lines are one more, and the master file, the index and the valid
  lines stay as they are. A valid line whose record is not in the index is accepted: the
  record and a line end are added to the text of the master file, the record is put into
  the index, the valid lines are one more, and nothing is logged. So when a valid line
  occurs a second time in the target file, whatever lines stand before and between the two:
  the first occurrence is accepted unless its record is in the index already; the second
  occurrence meets its record in the index, adds nothing to the master file, and adds its
  entry to the log file of the duplicates.
\<close>

theorem duplicate_check:
  assumes "fst (validate_line l n)"
  shows
    "(initialize fs t p1 = Inr p0 \<longrightarrow>
        existing_lines p0 =
          (case master fs of Absent cr \<Rightarrow> {} | Present m w \<Rightarrow> set (map strip (readlines m)))
        \<and> master_fd p0 = Some \<lparr>path = master_file p1,
             content = (case master fs of Absent cr \<Rightarrow> [] | Present m w \<Rightarrow> m), closed = False\<rparr>
        \<and> log_files p0 (str ''Duplicate'')
            = Some \<lparr>path = path_join (logs_folder p1) (str ''Duplicate'' @ str ''.txt''),
                    content = [], closed = False\<rparr>)
     \<and> (strip l \<in> existing_lines p \<longrightarrow> log_files p (str ''Duplicate'') = Some f \<longrightarrow>
          log_files (process_line p n l)
            = (log_files p)(str ''Duplicate'' \<mapsto>
                f\<lparr>content := content f @ str ''Line '' @ str_of_nat n @ str '': '' @ strip l @ [LF]\<rparr>)
          \<and> rejected_lines (process_line p n l) = rejected_lines p + 1
          \<and> valid_lines (process_line p n l) = valid_lines p
          \<and> master_fd (process_line p n l) = master_fd p
          \<and> existing_lines (process_line p n l) = existing_lines p)
     \<and> (strip l \<notin> existing_lines p \<longrightarrow> master_fd p = Some fd \<longrightarrow>
          master_fd (process_line p n l) = Some (fd\<lparr>content := content fd @ strip l @ [LF]\<rparr>)
          \<and> existing_lines (process_line p n l) = insert (strip l) (existing_lines p)
          \<and> valid_lines (process_line p n l) = valid_lines p + 1
          \<and> rejected_lines (process_line p n l) = rejected_lines p
          \<and> log_files (process_line p n l) = log_files p)
     \<and> (\<not> lock p \<longrightarrow> is_running p \<longrightarrow> \<not> is_paused p \<longrightarrow>
        master_fd p = Some fd \<longrightarrow> log_files p (str ''Duplicate'') = Some f \<longrightarrow>
          (\<exists>h1 fd1 h f'.
             h1 = handle_lines k p xs
             \<and> master_fd h1 = Some fd1
             \<and> (strip l \<notin> existing_lines h1 \<longrightarrow>
                  master_fd (handle_lines k p (xs @ [l]))
                    = Some (fd1\<lparr>content := content fd1 @ strip l @ [LF]\<rparr>)
                  \<and> valid_lines (handle_lines k p (xs @ [l])) = valid_lines h1 + 1)
             \<and> h = handle_lines k p (xs @ [l] @ ys)
             \<and> process_lines no_calls k p (xs @ [l] @ ys @ [l])
                 = Some (process_line h (Suc (k + length (xs @ [l] @ ys))) l)
             \<and> strip l \<in> existing_lines h
             \<and> master_fd h = Some (fd\<lparr>content := content fd
                   @ records_text (accepted (existing_lines p) (xs @ [l] @ ys))\<rparr>)
             \<and> master_fd (process_line h (Suc (k + length (xs @ [l] @ ys))) l) = master_fd h
             \<and> log_files h (str ''Duplicate'') = Some f'
             \<and> log_files (process_line h (Suc (k + length (xs @ [l] @ ys))) l) (str ''Duplicate'')
                 = Some (f'\<lparr>content := content f' @ str ''Line ''
                      @ str_of_nat (Suc (k + length (xs @ [l] @ ys))) @ str '': '' @ strip l @ [LF]\<rparr>)
             \<and> rejected_lines (process_line h (Suc (k + length (xs @ [l] @ ys))) l)
                 = rejected_lines h + 1
             \<and> valid_lines (process_line h (Suc (k + length (xs @ [l] @ ys))) l)
                 = valid_lines h))"
proof -
  have v: "fst (validate_line l 0)" using assms validate_line_num [of l n] by simp
  have A: "existing_lines p0 =
          (case master fs of Absent cr \<Rightarrow> {} | Present m w \<Rightarrow> set (map strip (readlines m)))
        \<and> master_fd p0 = Some \<lparr>path = master_file p1,
             content = (case master fs of Absent cr \<Rightarrow> [] | Present m w \<Rightarrow> m), closed = False\<rparr>
        \<and> log_files p0 (str ''Duplicate'')
            = Some \<lparr>path = path_join (logs_folder p1) (str ''Duplicate'' @ str ''.txt''),
                    content = [], closed = False\<rparr>"
    if i: "initialize fs t p1 = Inr p0"
  proof -
    have 1: "existing_lines p0 =
          (case master fs of Absent cr \<Rightarrow> {} | Present m w \<Rightarrow> set (map strip (readlines m)))"
      using initialize_Inr_fields(8) [OF i] by (simp add: preload_cases)
    have 2: "master_fd p0 = Some \<lparr>path = master_file p1,
             content = (case master fs of Absent cr \<Rightarrow> [] | Present m w \<Rightarrow> m), closed = False\<rparr>"
      by (rule initialize_master_fd [OF i])
    have 3: "log_files p0 (str ''Duplicate'')
            = Some \<lparr>path = path_join (logs_folder p1) (str ''Duplicate'' @ str ''.txt''),
                    content = [], closed = False\<rparr>"
      by (simp add: initialize_Inr_fields(11) [OF i] initialize_logs_eq open_w_def)
    from 1 2 3 show ?thesis by blast
  qed
  have B: "log_files (process_line q m l)
            = (log_files q)(str ''Duplicate'' \<mapsto>
                g\<lparr>content := content g @ str ''Line '' @ str_of_nat m @ str '': '' @ strip l @ [LF]\<rparr>)
          \<and> rejected_lines (process_line q m l) = rejected_lines q + 1
          \<and> valid_lines (process_line q m l) = valid_lines q
          \<and> master_fd (process_line q m l) = master_fd q
          \<and> existing_lines (process_line q m l) = existing_lines q"
    if "strip l \<in> existing_lines q" "log_files q (str ''Duplicate'') = Some g" for q m g
    using that v
    by (simp add: process_line_log_files log_rejection_log_files process_line_rejected_lines
        process_line_valid_lines process_line_master_fd process_line_existing_lines insert_absorb
        file_write_def log_entry_def)
  have C: "master_fd (process_line q m l) = Some (gd\<lparr>content := content gd @ strip l @ [LF]\<rparr>)
          \<and> existing_lines (process_line q m l) = insert (strip l) (existing_lines q)
          \<and> valid_lines (process_line q m l) = valid_lines q + 1
          \<and> rejected_lines (process_line q m l) = rejected_lines q
          \<and> log_files (process_line q m l) = log_files q"
    if "strip l \<notin> existing_lines q" "master_fd q = Some gd" for q m gd
    using that v
    by (simp add: process_line_log_files process_line_rejected_lines
        process_line_valid_lines process_line_master_fd process_line_existing_lines file_write_def)
  have D: "\<exists>h1 fd1 h f'.
             h1 = handle_lines k p xs
             \<and> master_fd h1 = Some fd1
             \<and> (strip l \<notin> existing_lines h1 \<longrightarrow>
                  master_fd (handle_lines k p (xs @ [l]))
                    = Some (fd1\<lparr>content := content fd1 @ strip l @ [LF]\<rparr>)
                  \<and> valid_lines (handle_lines k p (xs @ [l])) = valid_lines h1 + 1)
             \<and> h = handle_lines k p (xs @ [l] @ ys)
             \<and> process_lines no_calls k p (xs @ [l] @ ys @ [l])
                 = Some (process_line h (Suc (k + length (xs @ [l] @ ys))) l)
             \<and> strip l \<in> existing_lines h
             \<and> master_fd h = Some (fd\<lparr>content := content fd
                   @ records_text (accepted (existing_lines p) (xs @ [l] @ ys))\<rparr>)
             \<and> master_fd (process_line h (Suc (k + length (xs @ [l] @ ys))) l) = master_fd h
             \<and> log_files h (str ''Duplicate'') = Some f'
             \<and> log_files (process_line h (Suc (k + length (xs @ [l] @ ys))) l) (str ''Duplicate'')
                 = Some (f'\<lparr>content := content f' @ str ''Line ''
                      @ str_of_nat (Suc (k + length (xs @ [l] @ ys))) @ str '': '' @ strip l @ [LF]\<rparr>)
             \<and> rejected_lines (process_line h (Suc (k + length (xs @ [l] @ ys))) l)
                 = rejected_lines h + 1
             \<and> valid_lines (process_line h (Suc (k + length (xs @ [l] @ ys))) l)
                 = valid_lines h"
    if fl: "\<not> lock p" "is_running p" "\<not> is_paused p"
      and fd: "master_fd p = Some fd" and f: "log_files p (str ''Duplicate'') = Some f"
  proof -
    let ?h1 = "handle_lines k p xs"
    let ?fd1 = "fd\<lparr>content := content fd @ records_text (accepted (existing_lines p) xs)\<rparr>"
    let ?h = "handle_lines k p (xs @ [l] @ ys)"
    let ?m = "Suc (k + length (xs @ [l] @ ys))"
    have m1: "master_fd ?h1 = Some ?fd1" by (rule handle_lines_master_content [OF fd])
    have first: "master_fd (handle_lines k p (xs @ [l]))
                    = Some (?fd1\<lparr>content := content ?fd1 @ strip l @ [LF]\<rparr>)
                  \<and> valid_lines (handle_lines k p (xs @ [l])) = valid_lines ?h1 + 1"
      if "strip l \<notin> existing_lines ?h1"
      using C [OF that m1, of "Suc (k + length xs)"] by (simp only: handle_lines_snoc)
    have "process_lines no_calls k p ((xs @ [l] @ ys) @ [l])
        = Some (handle_lines k p ((xs @ [l] @ ys) @ [l]))"
      by (rule process_lines_no_calls [OF fl])
    then have "process_lines no_calls k p ((xs @ [l] @ ys) @ [l]) = Some (process_line ?h ?m l)"
      by (simp only: handle_lines_snoc)
    then have run: "process_lines no_calls k p (xs @ [l] @ ys @ [l]) = Some (process_line ?h ?m l)"
      by (simp only: append_assoc)
    have inh: "strip l \<in> existing_lines ?h"
      using v by (simp add: handle_lines_existing_lines)
    have mh: "master_fd ?h = Some (fd\<lparr>content := content fd
                   @ records_text (accepted (existing_lines p) (xs @ [l] @ ys))\<rparr>)"
      by (rule handle_lines_master_content [OF fd])
    have "str ''Duplicate'' \<in> dom (log_files ?h)"
      unfolding handle_lines_dom using f by blast
    then obtain f' where f': "log_files ?h (str ''Duplicate'') = Some f'" by blast
    note b = B [OF inh f', of ?m]
    have lg: "log_files (process_line ?h ?m l) (str ''Duplicate'')
                 = Some (f'\<lparr>content := content f' @ str ''Line ''
                      @ str_of_nat ?m @ str '': '' @ strip l @ [LF]\<rparr>)"
      using b by simp
    from m1 first run inh mh f' lg b show ?thesis by blast
  qed
  from A B C D show ?thesis by blast
qed


theorem duplicate_check_witness:
  "\<exists>p0 h. initialize example_fs example_target
            (example_processor\<lparr>is_running := True, is_paused := False\<rparr>) = Inr p0
     \<and> existing_lines p0 = {str ''x:y:z''}
     \<and> master_fd p0
         = Some \<lparr>path = str ''master.txt'', content = str ''x:y:z'' @ [LF], closed = False\<rparr>
     \<and> log_files p0 (str ''Duplicate'')
         = Some \<lparr>path = str ''Logs/Duplicate.txt'', content = [], closed = False\<rparr>
     \<and> master_fd (process_line p0 1 (str ''alice:http://x.com:pw1'' @ [LF]))
         = Some \<lparr>path = str ''master.txt'',
                 content = str ''x:y:z'' @ [LF] @ str ''alice:http://x.com:pw1'' @ [LF],
                 closed = False\<rparr>
     \<and> valid_lines (process_line p0 1 (str ''alice:http://x.com:pw1'' @ [LF])) = 1
     \<and> h = handle_lines 0 p0 (take 3 (readlines example_target))
     \<and> process_lines no_calls 0 p0 (take 4 (readlines example_target))
          = Some (process_line h 4 (str ''alice:http://x.com:pw1'' @ [LF]))
     \<and> str ''alice:http://x.com:pw1'' \<in> existing_lines h
     \<and> master_fd (process_line h 4 (str ''alice:http://x.com:pw1'' @ [LF]))
         = Some \<lparr>path = str ''master.txt'',
                 content = str ''x:y:z'' @ [LF] @ str ''alice:http://x.com:pw1'' @ [LF],
                 closed = False\<rparr>
     \<and> log_files (process_line h 4 (str ''alice:http://x.com:pw1'' @ [LF])) (str ''Duplicate'')
         = Some \<lparr>path = str ''Logs/Duplicate.txt'',
                 content = str ''Line 4: alice:http://x.com:pw1'' @ [LF], closed = False\<rparr>
     \<and> rejected_lines (process_line h 4 (str ''alice:http://x.com:pw1'' @ [LF]))
          = rejected_lines h + 1
     \<and> valid_lines (process_line h 4 (str ''alice:http://x.com:pw1'' @ [LF])) = 1"
proof -
  let ?l = "str ''alice:http://x.com:pw1'' @ [LF]"
  let ?r = "str ''alice:http://x.com:pw1''"
  let ?ys = "[str ''  a:b  '' @ [LF], [LF]]"
  let ?P1 = "(FileProcessor (str ''master.txt'') (str ''target.txt'') (str ''Logs''))
        \<lparr>is_running := True, is_paused := False\<rparr>"
  let ?fd = "\<lparr>path = str ''master.txt'', content = str ''x:y:z'' @ [LF], closed = False\<rparr>"
  let ?f = "\<lparr>path = str ''Logs/Duplicate.txt'', content = [], closed = False\<rparr>"
  from example_initialize obtain p0 where p0: "initialize example_fs example_target ?P1 = Inr p0"
    by blast
  note f = initialize_Inr_fields [OF p0]
  define h where "h = handle_lines 0 p0 (take 3 (readlines example_target))"
  have t3: "take 3 (readlines example_target) = [] @ [?l] @ ?ys"
    by (simp add: readlines_example)
  have t4: "take 4 (readlines example_target) = [] @ [?l] @ ?ys @ [?l]"
    by (simp add: readlines_example)
  have h: "h = handle_lines 0 p0 ([] @ [?l] @ ?ys)" unfolding h_def t3 ..
  have flags: "\<not> lock p0" "is_running p0" "\<not> is_paused p0" by (simp_all add: f)
  have m: "master example_fs = Present (str ''x:y:z'' @ [LF]) True" by (simp add: example_fs_def)
  have pth: "path_join (str ''Logs'') (str ''Duplicate'' @ str ''.txt'') = str ''Logs/Duplicate.txt''"
    by (simp add: path_join_def str_def)
  note init = duplicate_check [where l = ?l and n = 1 and fs = example_fs
      and t = example_target and ?p1.0 = ?P1 and ?p0.0 = p0 and p = p0 and f = ?f and fd = ?fd
      and k = 0 and xs = "[]" and ys = ?ys, OF validate_example, THEN conjunct1, rule_format, OF p0]
  have idx: "existing_lines p0 = {str ''x:y:z''}"
    using init by (simp add: m string_eval)
  have mfd: "master_fd p0 = Some ?fd"
    using init by (simp add: m)
  have lg0: "log_files p0 (str ''Duplicate'') = Some ?f"
    using init by (simp add: pth)
  have notin: "strip ?l \<notin> existing_lines p0"
    by (simp add: idx strip_example) (simp add: str_def)
  note acc = duplicate_check [where l = ?l and n = 1 and fs = example_fs
      and t = example_target and ?p1.0 = ?P1 and ?p0.0 = p0 and p = p0 and f = ?f and fd = ?fd
      and k = 0 and xs = "[]" and ys = ?ys, OF validate_example,
      THEN conjunct2, THEN conjunct2, THEN conjunct1, rule_format, OF notin mfd]
  have a1: "master_fd (process_line p0 1 ?l)
         = Some \<lparr>path = str ''master.txt'',
                 content = str ''x:y:z'' @ [LF] @ ?r @ [LF], closed = False\<rparr>"
    using acc by (simp add: strip_example)
  have a2: "valid_lines (process_line p0 1 ?l) = 1"
    using acc by (simp add: f)
  note twice = duplicate_check [where l = ?l and n = 1 and fs = example_fs
      and t = example_target and ?p1.0 = ?P1 and ?p0.0 = p0 and p = p0 and f = ?f and fd = ?fd
      and k = 0 and xs = "[]" and ys = ?ys, OF validate_example,
      THEN conjunct2, THEN conjunct2, THEN conjunct2, rule_format, OF flags mfd lg0]
  have len: "Suc (0 + length ([] @ [?l] @ ?ys)) = 4" by simp
  from twice obtain f' where
    run: "process_lines no_calls 0 p0 ([] @ [?l] @ ?ys @ [?l]) = Some (process_line h 4 ?l)"
    and inh: "strip ?l \<in> existing_lines h"
    and mh: "master_fd h = Some (?fd\<lparr>content := content ?fd
                   @ records_text (accepted (existing_lines p0) ([] @ [?l] @ ?ys))\<rparr>)"
    and mq: "master_fd (process_line h 4 ?l) = master_fd h"
    and lh: "log_files h (str ''Duplicate'') = Some f'"
    and lq: "log_files (process_line h 4 ?l) (str ''Duplicate'')
                 = Some (f'\<lparr>content := content f' @ str ''Line ''
                      @ str_of_nat 4 @ str '': '' @ strip ?l @ [LF]\<rparr>)"
    and rq: "rejected_lines (process_line h 4 ?l) = rejected_lines h + 1"
    and vq: "valid_lines (process_line h 4 ?l) = valid_lines h"
    unfolding len h [symmetric] by blast
  have v2: "\<not> fst (validate_line (str ''  a:b  '' @ [LF]) 0)"
    by (simp add: validate_line_def string_eval numeral_2_eq_2)
  have v3: "\<not> fst (validate_line [LF] 0)"
    by (simp add: validate_line_def string_eval)
  have ac: "accepted (existing_lines p0) ([] @ [?l] @ ?ys) = [?r]"
    using notin by (simp add: validate_example strip_example v2 v3)
  have lh0: "log_files h (str ''Duplicate'') = Some ?f"
    unfolding h using notin
    by (simp add: process_line_Duplicate_log validate_example v2 v3 lg0)
  have f': "f' = ?f" using lh lh0 by simp
  have n4: "str_of_nat 4 = str ''4''" by (simp add: str_of_nat.simps str_def)
  have b1: "master_fd (process_line h 4 ?l)
         = Some \<lparr>path = str ''master.txt'',
                 content = str ''x:y:z'' @ [LF] @ ?r @ [LF], closed = False\<rparr>"
    by (simp only: mq mh ac) (simp add: records_text_def)
  have b2: "log_files (process_line h 4 ?l) (str ''Duplicate'')
         = Some \<lparr>path = str ''Logs/Duplicate.txt'',
                 content = str ''Line 4: alice:http://x.com:pw1'' @ [LF], closed = False\<rparr>"
    by (simp add: lq f' n4 strip_example) (simp add: str_def)
  have "valid_lines h = 1"
    unfolding h by (simp only: handle_lines_valid_lines ac) (simp add: f)
  then have b3: "valid_lines (process_line h 4 ?l) = 1"
    using vq by simp
  have inh': "?r \<in> existing_lines h" using inh by (simp add: strip_example)
  have run': "process_lines no_calls 0 p0 (take 4 (readlines example_target))
          = Some (process_line h 4 ?l)"
    unfolding t4 by (rule run)
  show ?thesis
    unfolding example_processor_def
    using p0 idx mfd lg0 a1 a2 h_def run' inh' b1 b2 rq b3 by blast
qed

section \<open>The rejection logs\<close>

lemma validate_line_reason:
  "\<not> fst (validate_line l n) \<Longrightarrow>
   fst (snd (validate_line l n)) = str ''Empty Line''
   \<or> fst (snd (validate_line l n)) = str ''Not Enough Parts''"
  by (simp add: validate_line_def Let_def split: if_splits)

lemma handle_lines_take_Suc:
  "i < length ls \<Longrightarrow>
   handle_lines n p (take (Suc i) ls) = process_line (handle_lines n p (take i ls)) (Suc (n + i)) (ls ! i)"
  by (simp add: take_Suc_conv_app_nth handle_lines_snoc)

lemma initialize_log_files:
  assumes "initialize fs t p = Inr q" "r \<in> set log_reasons"
  shows "log_files q r =
           Some \<lparr>path = path_join (logs_folder p) (r @ str ''.txt''), content = [], closed = False\<rparr>"
proof -
  have d: "str ''Not Enough Parts'' \<noteq> str ''Empty Line''"
    "str ''Not Enough Parts'' \<noteq> str ''Duplicate''" "str ''Empty Line'' \<noteq> str ''Duplicate''"
    by (simp_all add: str_def)
  show ?thesis
    using assms(2) d
    by (auto simp add: initialize_Inr_fields(11) [OF assms(1)] initialize_logs_eq log_reasons_def
        open_w_def)
qed

text \<open>
  C6, as the code has it. A rejected line adds one entry to the log file of its reason and
  leaves the other log files as they are; the reason is one of the three for which
  \<^verbatim>\<open>initialize_logs\<close> opens a file, named after the reason, in the log folder. The entry
  is \<^verbatim>\<open>Line\<close>, the number of the line, a colon, and the stripped line, which is not the
  line as it was read: the white space at both of its ends is gone. The number is that of
  the line in the target file, counted from 1.
\<close>

theorem rejection_logged:
  assumes "\<not> fst (validate_line l n) \<or> strip l \<in> existing_lines p"
    and "reason = (if fst (validate_line l n) then str ''Duplicate''
                  else fst (snd (validate_line l n)))"
    and "log_files p reason = Some f"
  shows "reason \<in> set log_reasons
     \<and> log_files (process_line p n l) =
         (log_files p)(reason \<mapsto>
            f\<lparr>content := content f @ str ''Line '' @ str_of_nat n @ str '': '' @ strip l @ [LF]\<rparr>)
     \<and> (initialize fs t p1 = Inr p0 \<longrightarrow>
          log_files p0 reason =
            Some \<lparr>path = path_join (logs_folder p1) (reason @ str ''.txt''), content = [],
                  closed = False\<rparr>)
     \<and> (i < length ls \<longrightarrow>
          handle_lines 0 p0 (take (Suc i) ls)
            = process_line (handle_lines 0 p0 (take i ls)) (Suc i) (ls ! i))"
proof -
  have v0: "validate_line l 0 = validate_line l n" by (rule validate_line_num [symmetric])
  have A: "reason \<in> set log_reasons"
    using assms(2) validate_line_reason [of l n] by (auto simp add: log_reasons_def)
  have B: "log_files (process_line p n l) =
         (log_files p)(reason \<mapsto>
            f\<lparr>content := content f @ str ''Line '' @ str_of_nat n @ str '': '' @ strip l @ [LF]\<rparr>)"
    using assms
    by (auto simp add: process_line_log_files log_rejection_log_files v0 file_write_def
        log_entry_def)
  have C: "log_files p0 reason =
            Some \<lparr>path = path_join (logs_folder p1) (reason @ str ''.txt''), content = [],
                  closed = False\<rparr>"
    if "initialize fs t p1 = Inr p0"
    by (rule initialize_log_files [OF that A])
  have D: "handle_lines 0 p0 (take (Suc i) ls)
            = process_line (handle_lines 0 p0 (take i ls)) (Suc i) (ls ! i)"
    if "i < length ls"
    using handle_lines_take_Suc [OF that, of 0 p0] by simp
  from A B C D show ?thesis by blast
qed

lemma validate_blank: "validate_line [LF] n = (False, str ''Empty Line'', [])"
  by (simp add: validate_line_def string_eval)

theorem rejection_logged_witness:
  "\<exists>p0. initialize example_fs example_target
          (example_processor\<lparr>is_running := True, is_paused := False\<rparr>) = Inr p0
     \<and> log_files (process_line p0 3 (readlines example_target ! 2)) (str ''Empty Line'')
         = Some \<lparr>path = str ''Logs/Empty Line.txt'', content = str ''Line 3: '' @ [LF],
                 closed = False\<rparr>"
proof -
  from example_initialize obtain p0 where p0: "initialize example_fs example_target
     ((FileProcessor (str ''master.txt'') (str ''target.txt'') (str ''Logs''))
        \<lparr>is_running := True, is_paused := False\<rparr>) = Inr p0"
    by blast
  let ?f = "\<lparr>path = path_join (str ''Logs'') (str ''Empty Line'' @ str ''.txt''), content = [],
             closed = False\<rparr>"
  have l3: "readlines example_target ! 2 = [LF]" by (simp add: readlines_example)
  have r: "str ''Empty Line'' \<in> set log_reasons" by (simp add: log_reasons_def)
  have lf: "log_files p0 (str ''Empty Line'') = Some ?f"
    using initialize_log_files [OF p0 r] by simp
  have h1: "\<not> fst (validate_line [LF] 3) \<or> strip [LF] \<in> existing_lines p0"
    by (simp add: validate_blank)
  have h2: "str ''Empty Line'' = (if fst (validate_line [LF] 3) then str ''Duplicate''
                  else fst (snd (validate_line [LF] 3)))"
    by (simp add: validate_blank)
  have s: "strip [LF] = []" by (simp add: string_eval)
  have n3: "str_of_nat 3 = str ''3''" by (simp add: str_of_nat.simps str_def)
  have pth: "path_join (str ''Logs'') (str ''Empty Line'' @ str ''.txt'') = str ''Logs/Empty Line.txt''"
    by (simp add: path_join_def str_def)
  from rejection_logged [OF h1 h2 lf, where ls = "readlines example_target" and i = 2]
  have "log_files (process_line p0 3 [LF]) =
         (log_files p0)(str ''Empty Line'' \<mapsto>
            ?f\<lparr>content := content ?f @ str ''Line '' @ str_of_nat 3 @ str '': '' @ strip [LF] @ [LF]\<rparr>)"
    by blast
  then have "log_files (process_line p0 3 [LF]) (str ''Empty Line'')
         = Some \<lparr>path = str ''Logs/Empty Line.txt'', content = str ''Line 3: '' @ [LF],
                 closed = False\<rparr>"
    by (simp add: s n3 pth) (simp add: str_def)
  then show ?thesis unfolding example_processor_def l3 using p0 by blast
qed

text \<open>
  The second line of the example target file is \<^verbatim>\<open>a:b\<close> with two blanks before and two
  after. Its log entry holds \<^verbatim>\<open>a:b\<close> and not the line as it was read, with or without its
  line end.
\<close>

theorem rejection_logged_counterexample:
  "map_option content
     (log_files (process_line (initialize_logs example_processor) 2 (str ''  a:b  '' @ [LF]))
        (str ''Not Enough Parts''))
     = Some (str ''Line 2: a:b'' @ [LF])
   \<and> str ''Line 2: a:b'' @ [LF] \<noteq> str ''Line 2: '' @ (str ''  a:b  '' @ [LF]) @ [LF]
   \<and> str ''Line 2: a:b'' @ [LF] \<noteq> str ''Line 2: '' @ str ''  a:b  '' @ [LF]"
proof -
  have v: "validate_line (str ''  a:b  '' @ [LF]) 0 = (False, str ''Not Enough Parts'', str ''a:b'')"
    by (simp add: validate_line_def string_eval numeral_2_eq_2)
  have s: "strip (str ''  a:b  '' @ [LF]) = str ''a:b''"
    by (simp add: string_eval)
  have n2: "str_of_nat 2 = str ''2''" by (simp add: str_of_nat.simps str_def)
  have "map_option content
     (log_files (process_line (initialize_logs example_processor) 2 (str ''  a:b  '' @ [LF]))
        (str ''Not Enough Parts''))
     = Some (str ''Line 2: a:b'' @ [LF])"
    by (simp add: process_line_log_files log_rejection_log_files v s initialize_logs_eq
        example_processor_def file_write_def open_w_def log_entry_def n2)
       (simp add: str_def)
  moreover have "str ''Line 2: a:b'' @ [LF] \<noteq> str ''Line 2: '' @ (str ''  a:b  '' @ [LF]) @ [LF]"
    by (simp add: str_def)
  moreover have "str ''Line 2: a:b'' @ [LF] \<noteq> str ''Line 2: '' @ str ''  a:b  '' @ [LF]"
    by (simp add: str_def)
  ultimately show ?thesis by blast
qed

section \<open>Lines of a text\<close>

lemma readlines_eq_Nil [simp]: "readlines s = [] \<longleftrightarrow> s = []"
  by (cases s) (simp_all split: list.splits)

lemma readlines_no_LF: "LF \<notin> set r \<Longrightarrow> readlines (r @ [LF]) = [r @ [LF]]"
  by (induction r) simp_all

lemma readlines_after_LF: "readlines (xs @ [LF] @ ys) = readlines (xs @ [LF]) @ readlines ys"
proof (induction xs)
  case Nil
  show ?case by simp
next
  case (Cons c xs)
  show ?case
  proof (cases "c = LF")
    case True
    then show ?thesis using Cons.IH by simp
  next
    case False
    obtain l ls where e: "readlines (xs @ [LF]) = l # ls"
      by (cases "readlines (xs @ [LF])") simp_all
    show ?thesis using False Cons.IH e by simp
  qed
qed

lemma readlines_append:
  "m = [] \<or> last m = LF \<Longrightarrow> readlines (m @ a) = readlines m @ readlines a"
proof (cases "m = []")
  case True
  then show ?thesis by simp
next
  case False
  assume "m = [] \<or> last m = LF"
  with False have "m = butlast m @ [LF]" by (metis append_butlast_last_id)
  then obtain b where b: "m = b @ [LF]" ..
  show ?thesis using readlines_after_LF [of b a] by (simp add: b)
qed

lemma readlines_records_text:
  "\<forall>r\<in>set rs. LF \<notin> set r \<Longrightarrow> readlines (records_text rs) = map (\<lambda>r. r @ [LF]) rs"
proof (induction rs)
  case Nil
  show ?case by simp
next
  case (Cons r rs)
  have "readlines (records_text (r # rs)) = readlines (r @ [LF]) @ readlines (records_text rs)"
    using readlines_after_LF [of r "records_text rs"] by (simp add: records_text_Cons)
  then show ?case using Cons by (simp add: readlines_no_LF)
qed

text \<open>A text that does not end with a line end shares its last line with what is appended.\<close>

lemma readlines_joined:
  assumes "m \<noteq> []" "last m \<noteq> LF" "a \<noteq> []"
  shows "readlines (m @ a) =
           butlast (readlines m) @ [last (readlines m) @ hd (readlines a)] @ tl (readlines a)"
  using assms(1,2)
proof (induction m)
  case Nil
  then show ?case by simp
next
  case (Cons c m)
  obtain x xs where a: "readlines a = x # xs" using assms(3) by (cases "readlines a") simp_all
  show ?case
  proof (cases "m = []")
    case True
    then have "c \<noteq> LF" using Cons.prems by simp
    then show ?thesis using True a by simp
  next
    case False
    then have lm: "last m \<noteq> LF" using Cons.prems by simp
    note IH = Cons.IH [OF False lm]
    obtain y ys where m: "readlines m = y # ys" using False by (cases "readlines m") simp_all
    show ?thesis
    proof (cases "c = LF")
      case True
      then show ?thesis using IH m by simp
    next
      case nl: False
      show ?thesis
      proof (cases ys)
        case Nil
        then show ?thesis using nl IH m a by simp
      next
        case (Cons z zs)
        then show ?thesis using nl IH m a by simp
      qed
    qed
  qed
qed

lemma readlines_line_shape:
  "l \<in> set (readlines s) \<Longrightarrow> \<exists>b. LF \<notin> set b \<and> (l = b @ [LF] \<or> l = b)"
proof (induction s arbitrary: l)
  case Nil
  then show ?case by simp
next
  case (Cons c s)
  show ?case
  proof (cases "c = LF")
    case True
    then have "l = [LF] \<or> l \<in> set (readlines s)" using Cons.prems by simp
    then show ?thesis
    proof
      assume "l = [LF]"
      then have "LF \<notin> set [] \<and> (l = [] @ [LF] \<or> l = [])" by simp
      then show ?thesis by blast
    next
      assume "l \<in> set (readlines s)"
      then show ?thesis by (rule Cons.IH)
    qed
  next
    case False
    show ?thesis
    proof (cases "readlines s")
      case Nil
      then have "l = [c]" using Cons.prems False by simp
      then have "LF \<notin> set [c] \<and> (l = [c] @ [LF] \<or> l = [c])" using False by simp
      then show ?thesis by blast
    next
      case (Cons y ys)
      then have "l = c # y \<or> l \<in> set ys" using Cons.prems False by simp
      then show ?thesis
      proof
        assume l: "l = c # y"
        have "y \<in> set (readlines s)" using Cons by simp
        from Cons.IH [OF this] obtain b where "LF \<notin> set b" "y = b @ [LF] \<or> y = b" by blast
        then have "LF \<notin> set (c # b) \<and> (l = (c # b) @ [LF] \<or> l = c # b)"
          using False l by auto
        then show ?thesis by blast
      next
        assume "l \<in> set ys"
        then have "l \<in> set (readlines s)" using Cons by simp
        then show ?thesis by (rule Cons.IH)
      qed
    qed
  qed
qed

section \<open>Stripped lines\<close>

lemma isspace_LF [simp]: "isspace LF"
  by (simp add: isspace_def LF_def)

lemma rstrip_snoc_space: "isspace w \<Longrightarrow> rstrip (s @ [w]) = rstrip s"
  by (simp add: rstrip_def)

lemma rstrip_Nil [simp]: "rstrip [] = []"
  by (simp add: rstrip_def)

lemma strip_snoc_space: "isspace w \<Longrightarrow> strip (s @ [w]) = strip s"
proof -
  assume w: "isspace w"
  show ?thesis
  proof (cases "\<forall>c\<in>set s. isspace c")
    case True
    then have "dropWhile isspace (s @ [w]) = []" and "dropWhile isspace s = []"
      using w by simp_all
    then show ?thesis by (simp only: strip_def lstrip_def)
  next
    case False
    then have "dropWhile isspace (s @ [w]) = dropWhile isspace s @ [w]"
      by (simp add: dropWhile_append1) (metis dropWhile_append1)
    then show ?thesis using w by (simp add: strip_def lstrip_def rstrip_snoc_space)
  qed
qed

lemma set_strip: "set (strip s) \<subseteq> set s"
proof -
  have "set (rstrip u) \<subseteq> set u" for u
    using set_dropWhileD [of _ isspace "rev u"] by (auto simp add: rstrip_def)
  moreover have "set (lstrip u) \<subseteq> set u" for u
    using set_dropWhileD [of _ isspace u] by (auto simp add: lstrip_def)
  ultimately show ?thesis unfolding strip_def by blast
qed

lemma rstrip_idem: "rstrip (rstrip s) = rstrip s"
  by (simp add: rstrip_def)

lemma lstrip_rstrip_lstrip: "lstrip (rstrip (lstrip s)) = rstrip (lstrip s)"
proof (cases "rstrip (lstrip s)")
  case Nil
  then show ?thesis by (simp add: lstrip_def)
next
  case (Cons x xs)
  have pre: "\<exists>zs. lstrip s = rstrip (lstrip s) @ zs"
  proof -
    have "rev (lstrip s) = takeWhile isspace (rev (lstrip s)) @ dropWhile isspace (rev (lstrip s))"
      by simp
    then have "lstrip s = rev (dropWhile isspace (rev (lstrip s))) @ rev (takeWhile isspace (rev (lstrip s)))"
      by (metis rev_append rev_rev_ident)
    then show ?thesis unfolding rstrip_def by blast
  qed
  then obtain zs where z: "lstrip s = (x # xs) @ zs" using Cons by auto
  have "lstrip s \<noteq> []" using z by simp
  then have "\<not> isspace (hd (lstrip s))"
    unfolding lstrip_def by (metis hd_dropWhile)
  then have "\<not> isspace x" using z by simp
  then show ?thesis using Cons by (simp add: lstrip_def)
qed

lemma strip_idem [simp]: "strip (strip s) = strip s"
  by (simp add: strip_def lstrip_rstrip_lstrip rstrip_idem)

lemma strip_line_no_LF: "l \<in> set (readlines s) \<Longrightarrow> LF \<notin> set (strip l)"
proof -
  assume "l \<in> set (readlines s)"
  from readlines_line_shape [OF this] obtain b where b: "LF \<notin> set b" "l = b @ [LF] \<or> l = b"
    by blast
  then have "strip l = strip b" by (auto simp add: strip_snoc_space)
  then show ?thesis using set_strip [of b] b(1) by auto
qed

section \<open>The loop under any schedule\<close>

lemma log_rejection_flags:
  "log_rejection (p\<lparr>is_running := r, is_paused := s\<rparr>) rs n c
     = (log_rejection p rs n c)\<lparr>is_running := r, is_paused := s\<rparr>"
  by (simp add: log_rejection_def split: option.splits)

lemma emit_flags:
  "emit e (p\<lparr>is_running := r, is_paused := s\<rparr>) = (emit e p)\<lparr>is_running := r, is_paused := s\<rparr>"
  by (simp add: emit_def)

lemma process_line_flags:
  "process_line (p\<lparr>is_running := r, is_paused := s\<rparr>) n l
     = (process_line p n l)\<lparr>is_running := r, is_paused := s\<rparr>"
  by (simp add: process_line_def Let_def log_rejection_flags emit_flags validate_line_triple [of l n])

lemma handle_lines_flags:
  "handle_lines n (p\<lparr>is_running := r, is_paused := s\<rparr>) ls
     = (handle_lines n p ls)\<lparr>is_running := r, is_paused := s\<rparr>"
  by (induction ls arbitrary: n p) (simp_all add: process_line_flags)

text \<open>
  Whatever is called, a loop that returns has handled some first lines of the file, one
  after the other, and only its two flags can differ from the loop without calls.
\<close>

lemma process_lines_prefix:
  assumes "process_lines sched n p ls = Some q" "\<not> lock p"
  shows "\<exists>k r s. k \<le> length ls \<and> q = (handle_lines n p (take k ls))\<lparr>is_running := r, is_paused := s\<rparr>"
  using assms
proof (induction ls arbitrary: n p)
  case Nil
  then have "q = (handle_lines n p (take 0 []))\<lparr>is_running := is_running p, is_paused := is_paused p\<rparr>"
    by simp
  then show ?case by blast
next
  case (Cons l ls)
  define p1 where "p1 = calls (sched (Suc n) 0) p"
  note step = process_lines_Cons [OF Cons.prems(2), of sched n l ls, folded p1_def]
  have p1: "p1 = p\<lparr>is_running := is_running p1, is_paused := is_paused p1\<rparr>"
    using calls_flags [OF Cons.prems(2), of "sched (Suc n) 0"] unfolding p1_def by simp
  show ?case
  proof (cases "is_running p1")
    case False
    with step Cons.prems(1) have "q = p1" by simp
    then have "q = (handle_lines n p (take 0 (l # ls)))\<lparr>is_running := is_running p1, is_paused := is_paused p1\<rparr>"
      using p1 by simp
    then show ?thesis by blast
  next
    case True
    with step Cons.prems(1)
    have r: "process_lines sched (Suc n) (process_line p1 (Suc n) l) ls = Some q"
      by (auto split: if_splits)
    have "\<not> lock (process_line p1 (Suc n) l)" using Cons.prems(2) by (simp add: p1_def)
    from Cons.IH [OF r this] obtain k r s where k: "k \<le> length ls"
      and q: "q = (handle_lines (Suc n) (process_line p1 (Suc n) l) (take k ls))\<lparr>is_running := r, is_paused := s\<rparr>"
      by blast
    have "process_line p1 (Suc n) l
        = (process_line p (Suc n) l)\<lparr>is_running := is_running p1, is_paused := is_paused p1\<rparr>"
      by (subst p1) (rule process_line_flags)
    then have "q = (handle_lines n p (take (Suc k) (l # ls)))\<lparr>is_running := r, is_paused := s\<rparr>"
      using q by (simp add: handle_lines_flags)
    moreover have "Suc k \<le> length (l # ls)" using k by simp
    ultimately show ?thesis by blast
  qed
qed

lemma process_files_prefix:
  assumes "target fs = Some t1"
    and "initialize fs t1 ((FileProcessor a b c)\<lparr>is_running := True, is_paused := False\<rparr>) = Inr p0"
    and "target_loop fs = Some t"
    and "process_files fs sched (FileProcessor a b c) = Some q"
  shows "\<exists>k s. k \<le> length (readlines t)
           \<and> q = (teardown (handle_lines 0 p0 (take k (readlines t))))\<lparr>is_running := False, is_paused := s\<rparr>"
proof -
  have u: "\<not> lock (FileProcessor a b c)" by simp
  from assms(4) obtain q' where l: "process_lines sched 0 p0 (readlines t) = Some q'"
    and q: "q = (teardown q')\<lparr>is_running := False\<rparr>"
    by (auto simp add: process_files_unfold [OF u] assms(1,2,3) split: option.splits)
  have "\<not> lock p0" by (simp add: initialize_Inr_fields [OF assms(2)])
  from process_lines_prefix [OF l this] obtain k r s where k: "k \<le> length (readlines t)"
    and q': "q' = (handle_lines 0 p0 (take k (readlines t)))\<lparr>is_running := r, is_paused := s\<rparr>"
    by blast
  have "teardown (h\<lparr>is_running := r, is_paused := s\<rparr>) = (teardown h)\<lparr>is_running := r, is_paused := s\<rparr>" for h
    by (simp add: teardown_def Let_def close_logs_def emit_def)
  then have "q = (teardown (handle_lines 0 p0 (take k (readlines t))))\<lparr>is_running := False, is_paused := s\<rparr>"
    by (simp add: q q')
  with k show ?thesis by blast
qed

section \<open>The shape of the master file\<close>

lemma accepted_from_lines: "set (accepted idx ls) \<subseteq> strip ` set ls"
  by (auto simp add: set_accepted)

lemma accepted_no_LF:
  assumes "r \<in> set (accepted idx (take k (readlines t)))"
  shows "LF \<notin> set r"
proof -
  from assms accepted_from_lines obtain l where l: "l \<in> set (take k (readlines t))" and r: "r = strip l"
    by blast
  from l have "l \<in> set (readlines t)" by (rule in_set_takeD)
  then show ?thesis unfolding r by (rule strip_line_no_LF)
qed

text \<open>
  C10. An accepted record is written as the record and one line end, to a file opened for
  appending. So when the master file is not empty before the run and does not end with a
  line end, and the run accepts a record, the first accepted record follows the last line
  of the master file without a line end between them: the two are one line of the master
  file after the run, which so has one line less than it has records.
\<close>

theorem first_record_joins_last_line:
  assumes "master fs = Present m True" "m \<noteq> []" "last m \<noteq> LF"
    and "target fs = Some t1"
    and "initialize fs t1 ((FileProcessor a b c)\<lparr>is_running := True, is_paused := False\<rparr>) = Inr p0"
    and "process_files fs sched (FileProcessor a b c) = Some q"
    and "0 < valid_lines q"
  shows "\<exists>t k r rs. target_loop fs = Some t \<and> k \<le> length (readlines t)
     \<and> accepted (preload (master fs)) (take k (readlines t)) = r # rs
     \<and> master_after fs q = Present (m @ r @ [LF] @ records_text rs) True
     \<and> readlines (m @ r @ [LF] @ records_text rs)
         = butlast (readlines m) @ [last (readlines m) @ r @ [LF]] @ map (\<lambda>r. r @ [LF]) rs
     \<and> length (readlines (m @ r @ [LF] @ records_text rs)) + 1
         = length (readlines m) + length (r # rs)"
proof -
  note f = initialize_Inr_fields [OF assms(5)]
  have "target_loop fs \<noteq> None"
  proof
    assume "target_loop fs = None"
    then have "q = (emit (Error_occurred Target_open_failed) p0)\<lparr>is_running := False\<rparr>"
      using assms(6) by (simp add: process_files_unfold assms(4,5))
    then have "valid_lines q = 0" by (simp add: f)
    then show False using assms(7) by simp
  qed
  then obtain t where t: "target_loop fs = Some t" by blast
  from process_files_prefix [OF assms(4,5) t assms(6)] obtain k s where k: "k \<le> length (readlines t)"
    and q: "q = (teardown (handle_lines 0 p0 (take k (readlines t))))\<lparr>is_running := False, is_paused := s\<rparr>"
    by blast
  let ?acc = "accepted (preload (master fs)) (take k (readlines t))"
  have v: "valid_lines q = length ?acc"
    by (simp add: q handle_lines_valid_lines f)
  then obtain r rs where acc: "?acc = r # rs" using assms(7) by (cases ?acc) simp_all
  have mf: "master_fd q = Some \<lparr>path = a, content = m @ records_text ?acc, closed = True\<rparr>"
    by (simp add: q handle_lines_master_fd f initialize_master_fd [OF assms(5)] assms(1)
        file_write_def file_close_def)
  have ma: "master_after fs q = Present (m @ r @ [LF] @ records_text rs) True"
    by (simp add: master_after_def mf acc records_text_Cons)
  have nl: "\<forall>x\<in>set (r # rs). LF \<notin> set x"
    using accepted_no_LF [of _ "preload (master fs)" k t] unfolding acc by blast
  have ra: "readlines (r @ [LF] @ records_text rs) = map (\<lambda>r. r @ [LF]) (r # rs)"
    using readlines_records_text [OF nl] by (simp add: records_text_Cons)
  have "readlines (m @ (r @ [LF] @ records_text rs)) =
           butlast (readlines m) @ [last (readlines m) @ hd (readlines (r @ [LF] @ records_text rs))]
             @ tl (readlines (r @ [LF] @ records_text rs))"
    by (rule readlines_joined [OF assms(2,3)]) simp
  then have rl: "readlines (m @ r @ [LF] @ records_text rs)
         = butlast (readlines m) @ [last (readlines m) @ r @ [LF]] @ map (\<lambda>r. r @ [LF]) rs"
    by (simp only: ra list.sel list.map)
  have "readlines m \<noteq> []" using assms(2) by simp
  then have "length (butlast (readlines m)) + 1 = length (readlines m)"
    by (cases "readlines m") simp_all
  then have len: "length (readlines (m @ r @ [LF] @ records_text rs)) + 1
         = length (readlines m) + length (r # rs)"
    by (simp only: rl length_append length_map list.size)
  from t k acc ma rl len show ?thesis by blast
qed

lemma accepted_example_all:
  "accepted {str ''x:y:z''} (readlines example_target)
     = [str ''alice:http://x.com:pw1'', str ''u:v:w'']"
  by (simp add: readlines_example validate_line_def string_eval numeral_2_eq_2)

theorem first_record_joins_last_line_witness:
  "\<exists>q. process_files example_fs2 no_calls example_processor = Some q
     \<and> master_after example_fs2 q
         = Present (str ''x:y:z'' @ str ''alice:http://x.com:pw1'' @ [LF] @ str ''u:v:w'' @ [LF]) True
     \<and> readlines (str ''x:y:z'' @ str ''alice:http://x.com:pw1'' @ [LF] @ str ''u:v:w'' @ [LF])
         = [str ''x:y:z'' @ str ''alice:http://x.com:pw1'' @ [LF], str ''u:v:w'' @ [LF]]"
proof -
  let ?P = "FileProcessor (str ''master.txt'') (str ''target.txt'') (str ''Logs'')"
  have m: "master example_fs2 = Present (str ''x:y:z'') True" by (simp add: example_fs2_def)
  have ne: "str ''x:y:z'' \<noteq> []" "last (str ''x:y:z'') \<noteq> LF" by (simp_all add: str_def LF_def)
  have t: "target example_fs2 = Some example_target" by (simp add: example_fs2_def example_fs_def)
  have t': "target_loop example_fs2 = Some example_target"
    by (simp add: example_fs2_def example_fs_def)
  have "\<exists>p0. initialize example_fs2 example_target (?P\<lparr>is_running := True, is_paused := False\<rparr>) = Inr p0"
    by (simp add: initialize_cases example_fs2_def example_fs_def open_a_def)
  then obtain p0 where p0: "initialize example_fs2 example_target
      (?P\<lparr>is_running := True, is_paused := False\<rparr>) = Inr p0" by blast
  note f = initialize_Inr_fields [OF p0]
  define q where "q = (teardown (handle_lines 0 p0 (readlines example_target)))\<lparr>is_running := False\<rparr>"
  have run: "process_files example_fs2 no_calls ?P = Some q"
    unfolding q_def by (rule process_files_no_calls [OF t p0 t'])
  have pre: "preload (master example_fs2) = {str ''x:y:z''}"
    by (simp add: m preload_def string_eval)
  have v: "0 < valid_lines q"
    by (simp add: q_def handle_lines_valid_lines f pre accepted_example_all)
  from first_record_joins_last_line [OF m ne t p0 run v]
  obtain r rs where
     ma: "master_after example_fs2 q = Present (str ''x:y:z'' @ r @ [LF] @ records_text rs) True"
     and rl: "readlines (str ''x:y:z'' @ r @ [LF] @ records_text rs)
         = butlast (readlines (str ''x:y:z'')) @ [last (readlines (str ''x:y:z'')) @ r @ [LF]]
             @ map (\<lambda>r. r @ [LF]) rs"
    by blast
  have mq: "master_after example_fs2 q
      = Present (str ''x:y:z'' @ records_text (accepted {str ''x:y:z''} (readlines example_target))) True"
    by (simp add: master_after_def q_def handle_lines_master_fd f initialize_master_fd [OF p0] m
        file_write_def file_close_def pre [unfolded m])
  from ma mq have "r @ [LF] @ records_text rs
      = records_text [str ''alice:http://x.com:pw1'', str ''u:v:w'']"
    by (simp add: accepted_example_all)
  then have e: "r @ [LF] @ records_text rs = str ''alice:http://x.com:pw1'' @ [LF] @ str ''u:v:w'' @ [LF]"
    by (simp add: records_text_def)
  have one: "readlines (str ''x:y:z'') = [str ''x:y:z'']" by (simp add: str_def LF_def)
  have "readlines (str ''x:y:z'' @ str ''alice:http://x.com:pw1'' @ [LF] @ str ''u:v:w'' @ [LF])
         = [str ''x:y:z'' @ str ''alice:http://x.com:pw1'' @ [LF], str ''u:v:w'' @ [LF]]"
    by (simp add: str_def LF_def)
  then show ?thesis
    unfolding example_processor_def using run ma e by auto
qed

section \<open>A second run\<close>

lemma accepted_Nil:
  "strip ` {l \<in> set ls. fst (validate_line l 0)} \<subseteq> idx \<Longrightarrow> accepted idx ls = []"
  by (induction ls arbitrary: idx) auto

lemma reason_not_Duplicate:
  "\<not> fst (validate_line l n) \<Longrightarrow> fst (snd (validate_line l n)) \<noteq> str ''Duplicate''"
  using validate_line_reason [of l n] by (auto simp add: str_def)

lemma handle_lines_all_duplicates:
  assumes "strip ` {l \<in> set ls. fst (validate_line l 0)} \<subseteq> existing_lines p"
    and "log_files p (str ''Duplicate'') = Some f"
  shows "log_files (handle_lines n p ls) (str ''Duplicate'')
           = Some (file_write f (duplicate_log n ls))"
  using assms
proof (induction ls arbitrary: n p f)
  case Nil
  then show ?case by simp
next
  case (Cons l ls)
  let ?p = "process_line p (Suc n) l"
  have sub: "strip ` {l \<in> set ls. fst (validate_line l 0)} \<subseteq> existing_lines ?p"
    using Cons.prems(1) by (auto simp add: process_line_existing_lines)
  show ?case
  proof (cases "fst (validate_line l 0)")
    case True
    then have "strip l \<in> existing_lines p" using Cons.prems(1) by auto
    then have lf: "log_files ?p (str ''Duplicate'') = Some (file_write f (log_entry (Suc n) (strip l)))"
      using True Cons.prems(2)
      by (simp add: process_line_log_files log_rejection_log_files)
    show ?thesis using Cons.IH [OF sub lf] True by (simp add: file_write_write)
  next
    case False
    then have ne: "fst (snd (validate_line l 0)) \<noteq> str ''Duplicate''"
      by (rule reason_not_Duplicate)
    have lf: "log_files ?p (str ''Duplicate'') = Some f"
      using False Cons.prems(2) ne
      by (simp add: process_line_log_files log_rejection_log_files split: option.splits)
    show ?thesis using Cons.IH [OF sub lf] False by simp
  qed
qed

lemma preload_after_run:
  assumes "mt = [] \<or> last mt = LF"
  shows "preload (Present (mt @ records_text (accepted idx (readlines t))) w)
           = set (map strip (readlines mt)) \<union> set (accepted idx (readlines t))"
proof -
  let ?acc = "accepted idx (readlines t)"
  have nl: "\<forall>r\<in>set ?acc. LF \<notin> set r"
    using accepted_no_LF [of _ idx "length (readlines t)" t] by simp
  have st: "strip (r @ [LF]) = r" if "r \<in> set ?acc" for r
  proof -
    from that accepted_from_lines obtain l where "r = strip l" by blast
    then show ?thesis by (simp add: strip_snoc_space)
  qed
  have "readlines (mt @ records_text ?acc) = readlines mt @ map (\<lambda>r. r @ [LF]) ?acc"
    by (simp add: readlines_append [OF assms] readlines_records_text [OF nl])
  then have "preload (Present (mt @ records_text ?acc) w)
      = set (map strip (readlines mt)) \<union> (\<lambda>r. strip (r @ [LF])) ` set ?acc"
    by (simp add: preload_def image_image)
  also have "(\<lambda>r. strip (r @ [LF])) ` set ?acc = set ?acc"
    using st by (auto simp add: image_iff)
  finally show ?thesis .
qed

lemma preload_text:
  "preload ms = set (map strip (readlines (case ms of Absent cr \<Rightarrow> [] | Present m w \<Rightarrow> m)))"
  by (simp add: preload_def split: master_state.splits)

text \<open>
  C4, as the code has it. When the master file is absent, empty or ends with a line end
  before the first run, a second run over the same target file, with the master file as
  the first run left it, accepts nothing: both runs return, the second run counts no
  valid line and rejects every line, every valid line gets an entry in its log of the
  duplicates, and it leaves the master file as it found it.
\<close>

theorem rerun_accepts_nothing:
  assumes "target fs = Some t1"
    and "initialize fs t1 ((FileProcessor a b c)\<lparr>is_running := True, is_paused := False\<rparr>) = Inr p0"
    and "target_loop fs = Some t"
    and "mt = (case master fs of Absent cr \<Rightarrow> [] | Present m w \<Rightarrow> m)"
    and "mt = [] \<or> last mt = LF"
  shows "\<exists>p1 p2. run_twice fs no_calls (FileProcessor a b c) = Some (p1, p2)
     \<and> valid_lines p2 = 0
     \<and> rejected_lines p2 = length (readlines t)
     \<and> master_fd p2 = master_fd p1
     \<and> master_after (fs\<lparr>master := master_after fs p1\<rparr>) p2 = master_after fs p1
     \<and> master_after fs p1
          = Present (mt @ records_text (accepted (preload (master fs)) (readlines t))) True
     \<and> map_option content (log_files p2 (str ''Duplicate''))
          = Some (duplicate_log 0 (readlines t))"
proof -
  let ?P = "FileProcessor a b c"
  let ?P1 = "?P\<lparr>is_running := True, is_paused := False\<rparr>"
  let ?ls = "readlines t"
  let ?acc = "accepted (preload (master fs)) ?ls"
  let ?new = "mt @ records_text ?acc"
  note f = initialize_Inr_fields [OF assms(2)]
  define p1 where "p1 = (teardown (handle_lines 0 p0 ?ls))\<lparr>is_running := False\<rparr>"
  have run1: "process_files fs no_calls ?P = Some p1"
    unfolding p1_def by (rule process_files_no_calls [OF assms(1,2,3)])
  have m1: "master_fd p1 = Some \<lparr>path = a, content = ?new, closed = True\<rparr>"
    by (simp add: p1_def handle_lines_master_fd f initialize_master_fd [OF assms(2)] assms(4)
        file_write_def file_close_def)
  have ma1: "master_after fs p1 = Present ?new True"
    by (simp add: master_after_def m1)
  let ?fs2 = "fs\<lparr>master := master_after fs p1\<rparr>"
  have t2: "target ?fs2 = Some t1" using assms(1) by simp
  have t2': "target_loop ?fs2 = Some t" using assms(3) by simp
  have lc: "logs_creatable fs"
    using assms(2) by (simp add: initialize_cases split: if_splits)
  have "\<exists>q0. initialize ?fs2 t1 ?P1 = Inr q0"
    using lc by (simp add: initialize_cases ma1 open_a_def)
  then obtain q0 where q0: "initialize ?fs2 t1 ?P1 = Inr q0" by blast
  note g = initialize_Inr_fields [OF q0]
  define p2 where "p2 = (teardown (handle_lines 0 q0 ?ls))\<lparr>is_running := False\<rparr>"
  have run2: "process_files ?fs2 no_calls ?P = Some p2"
    unfolding p2_def by (rule process_files_no_calls [OF t2 q0 t2'])
  have rt: "run_twice fs no_calls ?P = Some (p1, p2)"
    by (simp add: run_twice_def run1 run2)
  have pm: "preload (master fs) = set (map strip (readlines mt))"
    unfolding assms(4) by (rule preload_text)
  have pa: "preload (Present ?new True) = set (map strip (readlines mt)) \<union> set ?acc"
    by (rule preload_after_run [OF assms(5)])
  have ms: "master ?fs2 = Present ?new True" by (simp add: ma1)
  have "existing_lines q0 = preload (Present ?new True)"
    using g(8) by (simp only: ms)
  also note pa
  finally have idx2: "existing_lines q0 = preload (master fs) \<union> set ?acc"
    by (simp only: pm)
  have all: "strip ` {l \<in> set ?ls. fst (validate_line l 0)} \<subseteq> existing_lines q0"
    unfolding idx2 by (auto simp add: set_accepted)
  have none: "accepted (existing_lines q0) ?ls = []"
    by (rule accepted_Nil [OF all])
  have v2: "valid_lines p2 = 0"
    by (simp add: p2_def handle_lines_valid_lines none g(6))
  have r2: "rejected_lines p2 = length ?ls"
    using handle_lines_rejected_lines [of 0 q0 ?ls] by (simp add: p2_def none g(7))
  have m2: "master_fd p2 = Some \<lparr>path = a, content = ?new, closed = True\<rparr>"
    by (simp add: p2_def handle_lines_master_fd none initialize_master_fd [OF q0] ma1
        file_close_def)
  have ma2: "master_after ?fs2 p2 = master_after fs p1"
    by (simp add: master_after_def m2 m1)
  have d: "str ''Duplicate'' \<in> set log_reasons" by (simp add: log_reasons_def)
  have dl: "log_files (handle_lines 0 q0 ?ls) (str ''Duplicate'')
      = Some (file_write \<lparr>path = path_join c (str ''Duplicate'' @ str ''.txt''), content = [],
           closed = False\<rparr> (duplicate_log 0 ?ls))"
    by (rule handle_lines_all_duplicates [OF all]) (simp add: initialize_log_files [OF q0 d])
  have l2: "map_option content (log_files p2 (str ''Duplicate'')) = Some (duplicate_log 0 ?ls)"
    by (simp add: p2_def dl file_write_def file_close_def)
  from rt v2 r2 m1 m2 ma2 ma1 l2 show ?thesis by simp
qed

theorem rerun_accepts_nothing_witness:
  "\<exists>p1 p2. run_twice example_fs no_calls example_processor = Some (p1, p2)
     \<and> valid_lines p2 = 0 \<and> rejected_lines p2 = 5 \<and> master_fd p2 = master_fd p1
     \<and> master_after example_fs p1
          = Present (str ''x:y:z'' @ [LF] @ str ''alice:http://x.com:pw1'' @ [LF]
                       @ str ''u:v:w'' @ [LF]) True"
proof -
  have t: "target example_fs = Some example_target" by (simp add: example_fs_def)
  from example_initialize obtain p0 where p0: "initialize example_fs example_target
     ((FileProcessor (str ''master.txt'') (str ''target.txt'') (str ''Logs''))
        \<lparr>is_running := True, is_paused := False\<rparr>) = Inr p0"
    by blast
  have mt: "str ''x:y:z'' @ [LF] = (case master example_fs of Absent cr \<Rightarrow> [] | Present m w \<Rightarrow> m)"
    by (simp add: example_fs_def)
  have e: "str ''x:y:z'' @ [LF] = [] \<or> last (str ''x:y:z'' @ [LF]) = LF" by simp
  have n: "length (readlines example_target) = 5" by (simp add: readlines_example)
  have r: "records_text (accepted (preload (master example_fs)) (readlines example_target))
      = str ''alice:http://x.com:pw1'' @ [LF] @ str ''u:v:w'' @ [LF]"
    by (simp add: preload_example accepted_example_all records_text_def)
  have t': "target_loop example_fs = Some example_target" by (simp add: example_fs_def)
  from rerun_accepts_nothing [OF t p0 t' mt e]
  show ?thesis unfolding example_processor_def n r by auto
qed

text \<open>
  With a master file that holds \<^verbatim>\<open>x:y:z\<close> and no line end, the first run writes its first
  record onto that line, so the second run does not find the record in the master file and
  accepts it again.
\<close>

theorem rerun_counterexample:
  "map_option (valid_lines \<circ> snd) (run_twice example_fs2 no_calls example_processor) = Some 1
   \<and> map_option (master_fd \<circ> fst) (run_twice example_fs2 no_calls example_processor)
       = Some (Some \<lparr>path = str ''master.txt'',
            content = str ''x:y:zalice:http://x.com:pw1'' @ [LF] @ str ''u:v:w'' @ [LF],
            closed = True\<rparr>)
   \<and> map_option (master_fd \<circ> snd) (run_twice example_fs2 no_calls example_processor)
       = Some (Some \<lparr>path = str ''master.txt'',
            content = str ''x:y:zalice:http://x.com:pw1'' @ [LF] @ str ''u:v:w'' @ [LF]
                        @ str ''alice:http://x.com:pw1'' @ [LF],
            closed = True\<rparr>)"
proof -
  let ?P = "FileProcessor (str ''master.txt'') (str ''target.txt'') (str ''Logs'')"
  let ?P1 = "?P\<lparr>is_running := True, is_paused := False\<rparr>"
  let ?m1 = "str ''x:y:zalice:http://x.com:pw1'' @ [LF] @ str ''u:v:w'' @ [LF]"
  have m: "master example_fs2 = Present (str ''x:y:z'') True" by (simp add: example_fs2_def)
  have t: "target example_fs2 = Some example_target" by (simp add: example_fs2_def example_fs_def)
  have t': "target_loop example_fs2 = Some example_target"
    by (simp add: example_fs2_def example_fs_def)
  have "\<exists>p0. initialize example_fs2 example_target ?P1 = Inr p0"
    by (simp add: initialize_cases example_fs2_def example_fs_def open_a_def)
  then obtain p0 where p0: "initialize example_fs2 example_target ?P1 = Inr p0" by blast
  note f = initialize_Inr_fields [OF p0]
  define p1 where "p1 = (teardown (handle_lines 0 p0 (readlines example_target)))\<lparr>is_running := False\<rparr>"
  have run1: "process_files example_fs2 no_calls ?P = Some p1"
    unfolding p1_def by (rule process_files_no_calls [OF t p0 t'])
  have pre: "preload (master example_fs2) = {str ''x:y:z''}"
    by (simp add: m preload_def string_eval)
  have e1: "existing_lines p0 = {str ''x:y:z''}" using f(8) pre by simp
  have m1: "master_fd p1 = Some \<lparr>path = str ''master.txt'', content = ?m1, closed = True\<rparr>"
    by (simp add: p1_def handle_lines_master_fd e1 accepted_example_all
        initialize_master_fd [OF p0] m file_write_def file_close_def records_text_def)
       (simp add: str_def)
  have ma: "master_after example_fs2 p1 = Present ?m1 True"
    by (simp add: master_after_def m1)
  let ?fs = "example_fs2\<lparr>master := master_after example_fs2 p1\<rparr>"
  have t2: "target ?fs = Some example_target" using t by simp
  have t2': "target_loop ?fs = Some example_target" using t' by simp
  have lc: "logs_creatable example_fs2" by (simp add: example_fs2_def example_fs_def)
  have "\<exists>q0. initialize ?fs example_target ?P1 = Inr q0"
    by (simp add: initialize_cases ma lc open_a_def)
  then obtain q0 where q0: "initialize ?fs example_target ?P1 = Inr q0" by blast
  note g = initialize_Inr_fields [OF q0]
  define p2 where "p2 = (teardown (handle_lines 0 q0 (readlines example_target)))\<lparr>is_running := False\<rparr>"
  have run2: "process_files ?fs no_calls ?P = Some p2"
    unfolding p2_def by (rule process_files_no_calls [OF t2 q0 t2'])
  have pre2: "preload (Present ?m1 True) = {str ''x:y:zalice:http://x.com:pw1'', str ''u:v:w''}"
    by (simp add: preload_def string_eval)
  have e2: "existing_lines q0 = {str ''x:y:zalice:http://x.com:pw1'', str ''u:v:w''}"
  proof -
    have ms: "master ?fs = Present ?m1 True" by (simp add: ma)
    show ?thesis using g(8) by (simp only: ms pre2)
  qed
  have acc2: "accepted {str ''x:y:zalice:http://x.com:pw1'', str ''u:v:w''} (readlines example_target)
      = [str ''alice:http://x.com:pw1'']"
    by (simp add: readlines_example validate_line_def string_eval numeral_2_eq_2)
  have v2: "valid_lines p2 = 1"
    by (simp add: p2_def handle_lines_valid_lines e2 acc2 g(6))
  have m2: "master_fd p2 = Some \<lparr>path = str ''master.txt'',
            content = ?m1 @ str ''alice:http://x.com:pw1'' @ [LF], closed = True\<rparr>"
    by (simp add: p2_def handle_lines_master_fd e2 acc2
        initialize_master_fd [OF q0] ma file_write_def file_close_def records_text_def)
  have rt: "run_twice example_fs2 no_calls example_processor = Some (p1, p2)"
    by (simp add: run_twice_def example_processor_def run1 run2)
  show ?thesis using v2 m1 m2 by (simp add: rt)
qed

section \<open>Failures and pauses\<close>

text \<open>
  C5, at a master file that cannot be opened for appending. The exception is raised after
  the log files were opened; the handler emits the error signal and nothing closes the
  three log files.
\<close>

theorem failure_leaves_logs_open:
  "map_option emitted (process_files example_fs3 no_calls example_processor)
     = Some [Error_occurred Master_open_failed]
   \<and> map_option log_states (process_files example_fs3 no_calls example_processor)
       = Some [Some False, Some False, Some False]
   \<and> map_option master_fd (process_files example_fs3 no_calls example_processor) = Some None"
proof -
  let ?P = "FileProcessor (str ''master.txt'') (str ''target.txt'') (str ''Logs'')"
  let ?P1 = "?P\<lparr>is_running := True, is_paused := False\<rparr>"
  let ?q = "(initialize_logs (?P1\<lparr>total_lines := length (readlines example_target)\<rparr>))
              \<lparr>existing_lines := preload (master example_fs3)\<rparr>"
  have u: "\<not> lock ?P" by simp
  have t: "target example_fs3 = Some example_target" by (simp add: example_fs3_def example_fs_def)
  have i: "initialize example_fs3 example_target ?P1 = Inl (Master_open_failed, ?q)"
    by (simp add: initialize_cases example_fs3_def example_fs_def open_a_def)
  have run: "process_files example_fs3 no_calls example_processor
      = Some ((emit (Error_occurred Master_open_failed) ?q)\<lparr>is_running := False\<rparr>)"
    unfolding example_processor_def by (simp add: process_files_unfold [OF u] t i)
  have d: "str ''Not Enough Parts'' \<noteq> str ''Empty Line''"
    "str ''Not Enough Parts'' \<noteq> str ''Duplicate''" "str ''Empty Line'' \<noteq> str ''Duplicate''"
    by (simp_all add: str_def)
  have e: "emitted ((emit (Error_occurred Master_open_failed) ?q)\<lparr>is_running := False\<rparr>)
      = [Error_occurred Master_open_failed]"
    by simp
  have l: "log_states ((emit (Error_occurred Master_open_failed) ?q)\<lparr>is_running := False\<rparr>)
      = [Some False, Some False, Some False]"
    using d by (simp add: log_states_def log_reasons_def initialize_logs_eq open_w_def)
  have m: "master_fd ((emit (Error_occurred Master_open_failed) ?q)\<lparr>is_running := False\<rparr>) = None"
    by simp
  show ?thesis by (simp only: run option.map e l m simp_thms)
qed

text \<open>
  C8, at a call of \<open>pause\<close> after the first line. The next round finds the flag and sleeps
  with the lock held, so the calls of \<open>resume\<close> and \<open>stop\<close> made during its sleeps wait for
  the lock and change nothing: the worker never leaves the pause loop and the run never
  returns.
\<close>

theorem pause_blocks_forever:
  "process_files example_fs pause_then_resume example_processor = None
   \<and> resume (example_processor\<lparr>is_paused := True, lock := True\<rparr>) = None
   \<and> stop (example_processor\<lparr>is_paused := True, lock := True\<rparr>) = None"
proof -
  have blocked: "resume (example_processor\<lparr>is_paused := True, lock := True\<rparr>) = None"
    "stop (example_processor\<lparr>is_paused := True, lock := True\<rparr>) = None"
    by (simp_all add: resume_def stop_def with_lock_def)
  let ?P = "FileProcessor (str ''master.txt'') (str ''target.txt'') (str ''Logs'')"
  have u: "\<not> lock ?P" by simp
  have t: "target example_fs = Some example_target" by (simp add: example_fs_def)
  have t': "target_loop example_fs = Some example_target" by (simp add: example_fs_def)
  from example_initialize obtain p0 where p0: "initialize example_fs example_target
     (?P\<lparr>is_running := True, is_paused := False\<rparr>) = Inr p0"
    by blast
  note f = initialize_Inr_fields [OF p0]
  let ?l1 = "str ''alice:http://x.com:pw1'' @ [LF]"
  let ?rest = "[str ''  a:b  '' @ [LF], [LF], str ''alice:http://x.com:pw1'' @ [LF], str ''u:v:w'']"
  let ?h = "handle_lines 0 p0 [?l1]"
  have ls: "readlines example_target = [?l1] @ (str ''  a:b  '' @ [LF]) # tl ?rest"
    by (simp add: readlines_example)
  have "process_lines pause_then_resume 0 p0 ([?l1] @ (str ''  a:b  '' @ [LF]) # tl ?rest)
      = process_lines pause_then_resume (0 + length [?l1]) ?h ((str ''  a:b  '' @ [LF]) # tl ?rest)"
    by (rule process_lines_append_quiet) (simp_all add: f pause_then_resume_def)
  then have a: "process_lines pause_then_resume 0 p0 (readlines example_target)
      = process_lines pause_then_resume 1 ?h ((str ''  a:b  '' @ [LF]) # tl ?rest)"
    by (simp only: ls) simp
  have uh: "\<not> lock ?h" by (simp add: f)
  have c: "calls (pause_then_resume (Suc 1) 0) ?h = ?h\<lparr>is_paused := True\<rparr>"
    using uh by (simp add: pause_then_resume_def calls_Cons calls_Nil call_unlocked)
  have "process_lines pause_then_resume 1 ?h ((str ''  a:b  '' @ [LF]) # tl ?rest) = None"
    by (simp only: process_lines_Cons [OF uh] c) (simp add: f)
  with a have "process_lines pause_then_resume 0 p0 (readlines example_target) = None" by simp
  then have "process_files example_fs pause_then_resume example_processor = None"
    unfolding example_processor_def
    by (simp add: process_files_unfold [OF u] t t' p0)
  with blocked show ?thesis by blast
qed

text \<open>
  C7, at a call of \<open>stop\<close> made while the worker is paused after two lines. The first two
  lines are handled; \<open>pause\<close> is called before the round for line 3, which finds the flag
  and sleeps with the lock held; the call of \<open>stop\<close> made during that sleep waits for the
  lock and does not clear \<open>is_running\<close>. The worker never leaves the pause loop: the loop
  over the lines is not left, nothing is closed, and neither the last snapshot nor the
  completion signal is emitted, because the run never returns.
\<close>

theorem stop_while_paused_never_returns:
  "pause_then_stop 1 0 = [] \<and> pause_then_stop 2 0 = []
   \<and> pause_then_stop 3 0 = [Pause] \<and> pause_then_stop 3 1 = [Stop]
   \<and> process_files example_fs pause_then_stop example_processor = None
   \<and> map_option processed_lines
        (process_lines pause_then_stop 0
           (example_processor\<lparr>is_running := True, total_lines := 5\<rparr>)
           (take 2 (readlines example_target))) = Some 2
   \<and> process_lines pause_then_stop 0
        (example_processor\<lparr>is_running := True, total_lines := 5\<rparr>)
        (take 3 (readlines example_target)) = None
   \<and> stop (example_processor\<lparr>is_running := True, is_paused := True, lock := True\<rparr>) = None"
proof -
  let ?P = "FileProcessor (str ''master.txt'') (str ''target.txt'') (str ''Logs'')"
  let ?l1 = "str ''alice:http://x.com:pw1'' @ [LF]"
  let ?l2 = "str ''  a:b  '' @ [LF]"
  let ?rest = "[[LF], str ''alice:http://x.com:pw1'' @ [LF], str ''u:v:w'']"
  have sch: "pause_then_stop 1 0 = []" "pause_then_stop 2 0 = []"
    "pause_then_stop 3 0 = [Pause]" "pause_then_stop 3 1 = [Stop]"
    by (simp_all add: pause_then_stop_def)
  have blocked: "stop (example_processor\<lparr>is_running := True, is_paused := True, lock := True\<rparr>) = None"
    by (simp add: stop_def with_lock_def)
  have stuck: "process_lines pause_then_stop 0 p ([?l1, ?l2] @ [LF] # ls) = None"
    if p: "\<not> lock p" "is_running p" "\<not> is_paused p" for p ls
  proof -
    let ?h = "handle_lines 0 p [?l1, ?l2]"
    have a0: "process_lines pause_then_stop 0 p ([?l1, ?l2] @ [LF] # ls)
        = process_lines pause_then_stop (0 + length [?l1, ?l2]) ?h ([LF] # ls)"
      by (rule process_lines_append_quiet [OF p]) (simp add: pause_then_stop_def)
    have len: "0 + length [?l1, ?l2] = 2" by simp
    have a: "process_lines pause_then_stop 0 p ([?l1, ?l2] @ [LF] # ls)
        = process_lines pause_then_stop 2 ?h ([LF] # ls)"
      using a0 unfolding len .
    have uh: "\<not> lock ?h" "is_running ?h" by (simp_all add: p)
    have c: "calls (pause_then_stop (Suc 2) 0) ?h = ?h\<lparr>is_paused := True\<rparr>"
      using uh by (simp add: pause_then_stop_def calls_Cons calls_Nil call_unlocked)
    have "process_lines pause_then_stop 2 ?h ([LF] # ls) = None"
      by (simp only: process_lines_Cons [OF uh(1)] c) (simp add: p)
    with a show ?thesis by simp
  qed
  have u: "\<not> lock ?P" by simp
  have t: "target example_fs = Some example_target" by (simp add: example_fs_def)
  have t': "target_loop example_fs = Some example_target" by (simp add: example_fs_def)
  from example_initialize obtain p0 where p0: "initialize example_fs example_target
     (?P\<lparr>is_running := True, is_paused := False\<rparr>) = Inr p0"
    by blast
  note f = initialize_Inr_fields [OF p0]
  have ls: "readlines example_target = [?l1, ?l2] @ [LF] # tl ?rest"
    by (simp add: readlines_example)
  have "process_lines pause_then_stop 0 p0 (readlines example_target) = None"
    unfolding ls by (rule stuck) (simp_all add: f)
  then have run: "process_files example_fs pause_then_stop example_processor = None"
    unfolding example_processor_def
    by (simp add: process_files_unfold [OF u] t t' p0)
  let ?p = "example_processor\<lparr>is_running := True, total_lines := 5\<rparr>"
  have fl: "\<not> lock ?p" "is_running ?p" "\<not> is_paused ?p"
    by (simp_all add: example_processor_def)
  have t2: "take 2 (readlines example_target) = [?l1, ?l2]" by (simp add: readlines_example)
  have t3: "take 3 (readlines example_target) = [?l1, ?l2] @ [LF] # []"
    by (simp add: readlines_example)
  have "process_lines pause_then_stop 0 ?p [?l1, ?l2] = Some (handle_lines 0 ?p [?l1, ?l2])"
    by (rule process_lines_quiet [OF fl]) (simp add: pause_then_stop_def)
  then have two: "map_option processed_lines
        (process_lines pause_then_stop 0 ?p (take 2 (readlines example_target))) = Some 2"
    by (simp only: t2 option.map handle_lines_processed) simp
  have three: "process_lines pause_then_stop 0 ?p (take 3 (readlines example_target)) = None"
    unfolding t3 by (rule stuck [OF fl])
  from sch run two three blocked show ?thesis by blast
qed

end
